theory Spec2Isabelle
  imports Complex_Main "HOL-Library.AList" "HOL-Library.Log_Nat"
begin

section \<open>PetWatcher: the notification manager of \<^verbatim>\<open>notifications.py\<close>\<close>

text \<open>
  The development embeds \<^verbatim>\<open>NotificationManager\<close> and its helpers. Python methods whose
  names start with an underscore keep their names without it. Mutation of \<^verbatim>\<open>self\<close> is
  explicit state passing, every \<^verbatim>\<open>raise\<close> is a value of the error type, and what the
  code takes from its surroundings (the clock, the image writer, the formatting routines
  of the language runtime) is an explicit argument.
\<close>

subsection \<open>Strings\<close>

text \<open>
  A string is a list of bytes. \<^verbatim>\<open>str.lower\<close> and \<^verbatim>\<open>str.capitalize\<close> are modelled on
  the ASCII letters; bytes outside \<open>A..Z\<close> and \<open>a..z\<close> are left as they are.
\<close>

definition ascii_uppercase :: string where
  "ascii_uppercase = ''ABCDEFGHIJKLMNOPQRSTUVWXYZ''"

definition ascii_lowercase :: string where
  "ascii_lowercase = ''abcdefghijklmnopqrstuvwxyz''"

definition lower_char :: "char \<Rightarrow> char" where
  "lower_char c = (case map_of (zip ascii_uppercase ascii_lowercase) c of None \<Rightarrow> c | Some d \<Rightarrow> d)"

definition upper_char :: "char \<Rightarrow> char" where
  "upper_char c = (case map_of (zip ascii_lowercase ascii_uppercase) c of None \<Rightarrow> c | Some d \<Rightarrow> d)"

definition lower :: "string \<Rightarrow> string" where
  "lower s = map lower_char s"

fun capitalize :: "string \<Rightarrow> string" where
  "capitalize [] = []"
| "capitalize (c # cs) = upper_char c # map lower_char cs"

definition endswith :: "string \<Rightarrow> string \<Rightarrow> bool" where
  "endswith s suffix = (length suffix \<le> length s \<and> drop (length s - length suffix) s = suffix)"

subsection \<open>Time\<close>

text \<open>
  A \<^verbatim>\<open>datetime\<close> is the number of microseconds since \<^verbatim>\<open>datetime.min\<close>
  (0001-01-01 00:00:00), so \<^verbatim>\<open>datetime.min\<close> is \<open>0\<close> and the difference of two datetimes is
  a \<^verbatim>\<open>timedelta\<close> in microseconds.
\<close>

type_synonym datetime = int
type_synonym timedelta = int

definition datetime_min :: datetime where
  "datetime_min = 0"

text \<open>
  \<^verbatim>\<open>timedelta.total_seconds\<close> divides the microseconds by \<open>10\<^sup>6\<close> and returns the double
  nearest to the quotient, the even one of two that are equally near. A double is read as
  the rational number it denotes. \<open>exponent x\<close> is the integer \<open>e\<close> with
  \<open>2\<^sup>e \<le> \<bar>x\<bar> < 2\<^sup>e\<^sup>+\<^sup>1\<close>; the doubles of that size are the multiples of \<open>2\<^sup>e\<^sup>-\<^sup>5\<^sup>2\<close>. The
  differences of two datetimes are far from the sizes at which a double overflows or
  loses digits near zero, which are left out.
\<close>

definition round_half_even :: "rat \<Rightarrow> int" where
  "round_half_even y =
     (let f = \<lfloor>y\<rfloor>; r = y - of_int f
      in if r < 1 / 2 then f else if 1 / 2 < r then f + 1 else if even f then f else f + 1)"

definition exponent :: "rat \<Rightarrow> int" where
  "exponent x =
     (let k = bitlen \<bar>fst (quotient_of x)\<bar> - bitlen (snd (quotient_of x))
      in if 2 powi k \<le> \<bar>x\<bar> then k else k - 1)"

definition to_double :: "rat \<Rightarrow> rat" where
  "to_double x =
     (if x = 0 then 0
      else let u = 2 powi (exponent x - 52) in of_int (round_half_even (x / u)) * u)"

definition total_seconds :: "timedelta \<Rightarrow> rat" where
  "total_seconds d = to_double (of_int d / 1000000)"

text \<open>\<^verbatim>\<open>total_seconds() >= cooldown_seconds\<close>, a comparison of a double with an integer, which
  the language decides exactly.\<close>

definition total_seconds_ge :: "timedelta \<Rightarrow> int \<Rightarrow> bool" where
  "total_seconds_ge d secs = (of_int secs \<le> total_seconds d)"

subsection \<open>Data model\<close>

datatype error =
    FileNotFoundError string
  | IndexError
  | Cv2Error

text \<open>
  A detection is the dict built by \<^verbatim>\<open>PetCamera._detect\<close>, with the keys
  \<^verbatim>\<open>box\<close>, \<^verbatim>\<open>label\<close>, \<^verbatim>\<open>confidence\<close>, \<^verbatim>\<open>color\<close> and \<^verbatim>\<open>type\<close>. The confidence is a
  float, read as the rational number it denotes.
\<close>

record detection =
  box :: "int \<times> int \<times> int \<times> int"
  label :: string
  confidence :: rat
  color :: "nat \<times> nat \<times> nat"
  type :: string

record notification =
  subject :: string
  message :: string
  image_path :: "string option"
  detection :: detection

text \<open>The constructor arguments of \<^verbatim>\<open>NotificationManager\<close> other than the platforms.\<close>

record config =
  cooldown_seconds :: int
  persistence_frames :: int
  save_images :: bool
  image_dir :: string
  max_images :: int

text \<open>
  The state of the manager. \<^verbatim>\<open>last_notification\<close> is a \<^verbatim>\<open>defaultdict\<close> whose missing
  keys read as \<^verbatim>\<open>datetime.min\<close> and are inserted by the read; \<^verbatim>\<open>detection_streak\<close> is a
  \<^verbatim>\<open>defaultdict(int)\<close>, kept as an association list in insertion order because the
  reset loop iterates over its keys.
\<close>

record nm_state =
  last_notification :: "string \<rightharpoonup> datetime"
  current_state :: "string set"
  detection_streak :: "(string \<times> int) list"

definition init_state :: nm_state where
  "init_state = \<lparr>last_notification = Map.empty, current_state = {}, detection_streak = []\<rparr>"

definition streak_of :: "nm_state \<Rightarrow> string \<Rightarrow> int" where
  "streak_of st s = (case map_of (detection_streak st) s of None \<Rightarrow> 0 | Some n \<Rightarrow> n)"

definition last_notified :: "nm_state \<Rightarrow> string \<Rightarrow> datetime" where
  "last_notified st s = (case last_notification st s of None \<Rightarrow> datetime_min | Some t \<Rightarrow> t)"

text \<open>\<^verbatim>\<open>self.detection_streak[subject] += 1\<close>\<close>

definition streak_incr :: "nm_state \<Rightarrow> string \<Rightarrow> nm_state" where
  "streak_incr st s = st\<lparr>detection_streak := AList.update s (streak_of st s + 1) (detection_streak st)\<rparr>"

text \<open>\<^verbatim>\<open>self.last_notification[subject]\<close>, a read that inserts the default.\<close>

definition last_notification_getitem :: "nm_state \<Rightarrow> string \<Rightarrow> datetime \<times> nm_state" where
  "last_notification_getitem st s =
     (case last_notification st s of
        None \<Rightarrow> (datetime_min, st\<lparr>last_notification := (last_notification st)(s \<mapsto> datetime_min)\<rparr>)
      | Some t \<Rightarrow> (t, st))"

subsection \<open>The surroundings of a call\<close>

text \<open>
  \<open>clock\<close> gives the successive values of \<^verbatim>\<open>datetime.now()\<close> during one call: the
  \<open>i\<close>-th read returns \<open>clock i\<close>. \<open>imwrite\<close> says what \<^verbatim>\<open>cv2.imwrite\<close> does with a
  path: it writes the file, which then has the given \<^verbatim>\<open>st_ctime\<close>, or returns
  \<^verbatim>\<open>False\<close> without writing, or raises. The three
  formatting routines are those of the language runtime: the format specification
  \<^verbatim>\<open>.0%\<close>, \<^verbatim>\<open>strftime("%I:%M %p")\<close> and \<^verbatim>\<open>strftime("%Y%m%d_%H%M%S")\<close>.
\<close>

datatype write_outcome = Written datetime | NotWritten | WriteRaises

record env =
  clock :: "nat \<Rightarrow> datetime"
  imwrite :: "string \<Rightarrow> write_outcome"
  format_percent :: "rat \<Rightarrow> string"
  strftime_clock :: "datetime \<Rightarrow> string"
  strftime_stamp :: "datetime \<Rightarrow> string"

text \<open>
  What a call changes outside the manager: the number of clock reads made so far and the
  entries of the image directory, each a file name with its \<^verbatim>\<open>st_ctime\<close>, in the order
  in which the directory lists them.
\<close>

record world =
  ticks :: nat
  files :: "(string \<times> datetime) list"

definition datetime_now :: "env \<Rightarrow> world \<Rightarrow> datetime \<times> world" where
  "datetime_now e w = (clock e (ticks w), w\<lparr>ticks := Suc (ticks w)\<rparr>)"

subsection \<open>Cooldown and message\<close>

definition is_cooled_down :: "config \<Rightarrow> env \<Rightarrow> string \<Rightarrow> nm_state \<Rightarrow> world \<Rightarrow> bool \<times> nm_state \<times> world" where
  "is_cooled_down cfg e subj st w =
     (case datetime_now e w of (now, w1) \<Rightarrow>
      case last_notification_getitem st subj of (t_last, st1) \<Rightarrow>
        (total_seconds_ge (now - t_last) (cooldown_seconds cfg), st1, w1))"

text \<open>The leading symbols of the four messages, as the bytes the source file holds.\<close>

definition icon_cat :: string where
  "icon_cat = [CHR 0xEF, CHR 0xA3, CHR 0xBF, CHR 0xC3, CHR 0xBC, CHR 0xC3, CHR 0xAA, CHR 0xC2, CHR 0xB1]"

definition icon_person :: string where
  "icon_person = [CHR 0xEF, CHR 0xA3, CHR 0xBF, CHR 0xC3, CHR 0xBC, CHR 0xC3, CHR 0xAB, CHR 0xC2, CHR 0xA7]"

definition icon_search :: string where
  "icon_search = [CHR 0xEF, CHR 0xA3, CHR 0xBF, CHR 0xC3, CHR 0xBC, CHR 0xC3, CHR 0xAE, CHR 0xC3, CHR 0xA7]"

definition detected_text :: "env \<Rightarrow> rat \<Rightarrow> datetime \<Rightarrow> string" where
  "detected_text e c now =
     '' detected! ('' @ format_percent e c @ '' confident) at '' @ strftime_clock e now"

definition create_notification :: "env \<Rightarrow> string \<Rightarrow> detection \<Rightarrow> world \<Rightarrow> string \<times> world" where
  "create_notification e subj det w =
     (case datetime_now e w of (now, w1) \<Rightarrow>
        ((if subj = ''miso'' then icon_cat @ '' Miso'' @ detected_text e (confidence det) now
          else if subj = ''ozzy'' then icon_cat @ '' Ozzy'' @ detected_text e (confidence det) now
          else if subj = ''person'' then icon_person @ '' Person'' @ detected_text e (confidence det) now
          else icon_search @ '' '' @ capitalize subj @ detected_text e (confidence det) now),
         w1))"

subsection \<open>Snapshot store\<close>

type_synonym directory = "(string \<times> datetime) list"

definition is_jpg :: "string \<Rightarrow> bool" where
  "is_jpg name = endswith name ''.jpg''"

text \<open>\<^verbatim>\<open>self.image_dir.glob("*.jpg")\<close>\<close>

definition glob_jpg :: "directory \<Rightarrow> directory" where
  "glob_jpg fs = filter (\<lambda>p. is_jpg (fst p)) fs"

text \<open>\<^verbatim>\<open>Path.unlink\<close> without \<^verbatim>\<open>missing_ok\<close>: a missing file raises.\<close>

definition unlink :: "string \<Rightarrow> directory \<Rightarrow> error + directory" where
  "unlink name fs =
     (if name \<in> fst ` set fs then Inr (filter (\<lambda>p. fst p \<noteq> name) fs)
      else Inl (FileNotFoundError name))"

text \<open>
  The \<^verbatim>\<open>while\<close> loop of \<^verbatim>\<open>_cleanup_old_images\<close> over the sorted list \<^verbatim>\<open>images\<close>;
  \<^verbatim>\<open>images.pop(0)\<close> on an empty list raises \<^verbatim>\<open>IndexError\<close>. A failure returns the
  directory as it is at that moment.
\<close>

fun cleanup_loop :: "int \<Rightarrow> string list \<Rightarrow> directory \<Rightarrow> (error \<times> directory) + directory" where
  "cleanup_loop m [] fs = (if 0 > m then Inl (IndexError, fs) else Inr fs)"
| "cleanup_loop m (oldest # images) fs =
     (if int (length (oldest # images)) > m then
        (case unlink oldest fs of
           Inl err \<Rightarrow> Inl (err, fs)
         | Inr fs' \<Rightarrow> cleanup_loop m images fs')
      else Inr fs)"

definition cleanup_old_images :: "config \<Rightarrow> directory \<Rightarrow> (error \<times> directory) + directory" where
  "cleanup_old_images cfg fs =
     (if \<not> save_images cfg then Inr fs
      else cleanup_loop (max_images cfg) (map fst (sort_key snd (glob_jpg fs))) fs)"

text \<open>
  \<^verbatim>\<open>_save_snapshot\<close>. Drawing the detections on the copy of the frame changes no state;
  it is taken to succeed and is left out. The file is entered in the directory under its
  name, which is taken to hold no path separator.
\<close>

definition store_image :: "write_outcome \<Rightarrow> string \<Rightarrow> directory \<Rightarrow> directory" where
  "store_image outcome filename fs =
     (case outcome of Written t \<Rightarrow> AList.update filename t fs | _ \<Rightarrow> fs)"

definition save_snapshot ::
  "config \<Rightarrow> env \<Rightarrow> string \<Rightarrow> detection list \<Rightarrow> world \<Rightarrow> (error \<times> world) + (string \<times> world)" where
  "save_snapshot cfg e subj detections w =
     (case datetime_now e w of (now, w1) \<Rightarrow>
        let filename = subj @ ''_'' @ strftime_stamp e now @ ''.jpg'';
            filepath = image_dir cfg @ ''/'' @ filename
        in (case imwrite e filepath of
              WriteRaises \<Rightarrow> Inl (Cv2Error, w1)
            | outcome \<Rightarrow>
                (case cleanup_old_images cfg (store_image outcome filename (files w1)) of
                   Inl (err, fs) \<Rightarrow> Inl (err, w1\<lparr>files := fs\<rparr>)
                 | Inr fs \<Rightarrow> Inr (filepath, w1\<lparr>files := fs\<rparr>))))"


subsection \<open>Processing the detections of a frame\<close>

text \<open>
  The body of the first loop of \<^verbatim>\<open>process_detections\<close> for one detection. It returns the
  notification it appends, if any.
\<close>

definition detect_step ::
  "config \<Rightarrow> env \<Rightarrow> detection list \<Rightarrow> detection \<Rightarrow> nm_state \<Rightarrow> world \<Rightarrow>
     (error \<times> nm_state \<times> world) + (notification option \<times> nm_state \<times> world)" where
  "detect_step cfg e detections det st w =
     (let subj = lower (label det);
          st1 = streak_incr st subj
      in if streak_of st1 subj \<ge> persistence_frames cfg then
           if subj \<notin> current_state st1 then
             (case is_cooled_down cfg e subj st1 w of (cooled, st2, w2) \<Rightarrow>
                if cooled then
                  (case create_notification e subj det w2 of (msg, w3) \<Rightarrow>
                     (case (if save_images cfg
                            then (case save_snapshot cfg e subj detections w3 of
                                    Inl err \<Rightarrow> Inl err
                                  | Inr (path, w4) \<Rightarrow> Inr (Some path, w4))
                            else Inr (None, w3)) of
                        Inl (err, w4) \<Rightarrow> Inl (err, st2, w4)
                      | Inr (path, w4) \<Rightarrow>
                          (case datetime_now e w4 of (now, w5) \<Rightarrow>
                             Inr (Some \<lparr>subject = subj, message = msg, image_path = path, detection = det\<rparr>,
                                  st2\<lparr>last_notification := (last_notification st2)(subj \<mapsto> now),
                                      current_state := insert subj (current_state st2)\<rparr>,
                                  w5))))
                else Inr (None, st2, w2))
           else Inr (None, st1, w)
         else Inr (None, st1, w))"

fun detect_loop ::
  "config \<Rightarrow> env \<Rightarrow> detection list \<Rightarrow> detection list \<Rightarrow> nm_state \<Rightarrow> world \<Rightarrow> string set \<Rightarrow>
     notification list \<Rightarrow> (error \<times> nm_state \<times> world) + (nm_state \<times> world \<times> string set \<times> notification list)" where
  "detect_loop cfg e detections [] st w subjects notifications = Inr (st, w, subjects, notifications)"
| "detect_loop cfg e detections (det # dets) st w subjects notifications =
     (case detect_step cfg e detections det st w of
        Inl err \<Rightarrow> Inl err
      | Inr (n, st', w') \<Rightarrow>
          detect_loop cfg e detections dets st' w' (insert (lower (label det)) subjects)
            (notifications @ (case n of None \<Rightarrow> [] | Some x \<Rightarrow> [x])))"

text \<open>The second loop, over \<^verbatim>\<open>list(self.detection_streak.keys())\<close>.\<close>

fun reset_loop :: "string list \<Rightarrow> string set \<Rightarrow> nm_state \<Rightarrow> nm_state" where
  "reset_loop [] subjects st = st"
| "reset_loop (subj # keys) subjects st =
     reset_loop keys subjects
       (if subj \<notin> subjects then
          (let st1 = st\<lparr>detection_streak := AList.update subj 0 (detection_streak st)\<rparr>
           in if subj \<in> current_state st1
              then st1\<lparr>current_state := current_state st1 - {subj}\<rparr> else st1)
        else st)"

text \<open>
  \<^verbatim>\<open>process_detections\<close>. The clock reads of a call are counted from \<open>0\<close>. When the call
  raises, the result holds the exception with the state and the directory as the call
  leaves them.
\<close>

definition process_detections ::
  "config \<Rightarrow> env \<Rightarrow> nm_state \<Rightarrow> directory \<Rightarrow> detection list \<Rightarrow>
     (error \<times> nm_state \<times> directory) + (notification list \<times> nm_state \<times> directory)" where
  "process_detections cfg e st fs detections =
     (case detect_loop cfg e detections detections st \<lparr>ticks = 0, files = fs\<rparr> {} [] of
        Inl (err, st1, w1) \<Rightarrow> Inl (err, st1, files w1)
      | Inr (st1, w1, subjects, notifications) \<Rightarrow>
          Inr (notifications, reset_loop (map fst (detection_streak st1)) subjects st1, files w1))"

text \<open>A session: the calls of \<^verbatim>\<open>process_detections\<close> one after another, each with its own
  surroundings, until one raises. The result lists what each call returned.\<close>

fun run_frames ::
  "config \<Rightarrow> nm_state \<Rightarrow> directory \<Rightarrow> (env \<times> detection list) list \<Rightarrow>
     (error \<times> nm_state \<times> directory) + (notification list list \<times> nm_state \<times> directory)" where
  "run_frames cfg st fs [] = Inr ([], st, fs)"
| "run_frames cfg st fs (f # frames) =
     (case process_detections cfg (fst f) st fs (snd f) of
        Inl err \<Rightarrow> Inl err
      | Inr (ns, st', fs') \<Rightarrow>
          (case run_frames cfg st' fs' frames of
             Inl err \<Rightarrow> Inl err
           | Inr (nss, st'', fs'') \<Rightarrow> Inr (ns # nss, st'', fs'')))"

text \<open>The notifications of a list that are about a subject, and the detections of a frame
  that bear it.\<close>

definition about :: "string \<Rightarrow> notification list \<Rightarrow> notification list" where
  "about s ns = filter (\<lambda>n. subject n = s) ns"

definition bearing :: "string \<Rightarrow> detection list \<Rightarrow> detection list" where
  "bearing s dets = filter (\<lambda>d. lower (label d) = s) dets"

text \<open>Whether the cooldown check passes at a clock value, for a subject last notified at \<open>t\<close>.\<close>

definition cooldown_over :: "config \<Rightarrow> datetime \<Rightarrow> datetime \<Rightarrow> bool" where
  "cooldown_over cfg t now = total_seconds_ge (now - t) (cooldown_seconds cfg)"

text \<open>
  The conditions under which the snapshot store raises nothing: images are not saved, or
  the image writer does not raise, the limit is not negative and the directory lists
  every name once.
\<close>

definition writer_ok :: "config \<Rightarrow> env \<Rightarrow> bool" where
  "writer_ok cfg e = (save_images cfg \<longrightarrow> (\<forall>p. imwrite e p \<noteq> WriteRaises))"

definition store_ok :: "config \<Rightarrow> directory \<Rightarrow> bool" where
  "store_ok cfg fs = (save_images cfg \<longrightarrow> 0 \<le> max_images cfg \<and> distinct (map fst fs))"

text \<open>The states the manager is in between calls: no streak is negative, and a subject
  marked present has a positive streak.\<close>

definition state_inv :: "nm_state \<Rightarrow> bool" where
  "state_inv st = ((\<forall>p \<in> set (detection_streak st). 0 \<le> snd p) \<and>
                   (\<forall>s \<in> current_state st. 0 < streak_of st s))"

subsection \<open>Sending a notification\<close>

text \<open>
  A platform is its name and what its \<^verbatim>\<open>send\<close> does with a message and an optional
  image path: it completes, or raises an \<^verbatim>\<open>Exception\<close> with a text, in either case after
  some time. \<^verbatim>\<open>await\<close> suspends the caller until the awaited call is over, so the time
  at which the loop reaches a platform is the time the earlier sends have taken.
\<close>

datatype send_result = Delivered | Raised string

record platform =
  name :: string
  send :: "string \<Rightarrow> string option \<Rightarrow> send_result \<times> nat"

record attempt =
  via :: string
  sent_message :: string
  sent_image :: "string option"
  started :: nat

record dispatch =
  attempts :: "attempt list"
  printed :: "string list"
  elapsed :: nat

definition warn_icon :: string where
  "warn_icon = [CHR 0xE2, CHR 0x80, CHR 0x9A, CHR 0xC3, CHR 0xB6, CHR 0xE2, CHR 0x80, CHR 0xA0,
                CHR 0xC3, CHR 0x94, CHR 0xE2, CHR 0x88, CHR 0x8F, CHR 0xC3, CHR 0xA8]"

definition failure_line :: "string \<Rightarrow> string \<Rightarrow> string" where
  "failure_line pname reason =
     warn_icon @ ''  Failed to send notification via '' @ pname @ '': '' @ reason"

fun send_loop :: "platform list \<Rightarrow> notification \<Rightarrow> dispatch \<Rightarrow> dispatch" where
  "send_loop [] n d = d"
| "send_loop (p # ps) n d =
     (case send p (message n) (image_path n) of (r, duration) \<Rightarrow>
        send_loop ps n
          \<lparr>attempts = attempts d @
             [\<lparr>via = name p, sent_message = message n, sent_image = image_path n, started = elapsed d\<rparr>],
           printed = (case r of Delivered \<Rightarrow> printed d
                      | Raised reason \<Rightarrow> printed d @ [failure_line (name p) reason]),
           elapsed = elapsed d + duration\<rparr>)"

definition send_notification :: "platform list \<Rightarrow> notification \<Rightarrow> dispatch" where
  "send_notification platforms n = send_loop platforms n \<lparr>attempts = [], printed = [], elapsed = 0\<rparr>"

subsection \<open>Sample inputs\<close>

text \<open>Surroundings in which every clock read returns \<open>t\<close> and every image is written.\<close>

definition env_at :: "datetime \<Rightarrow> env" where
  "env_at t = \<lparr>clock = (\<lambda>i. t), imwrite = (\<lambda>p. Written t), format_percent = (\<lambda>c. ''90%''),
              strftime_clock = (\<lambda>t. ''03:15 PM''), strftime_stamp = (\<lambda>t. ''20261104_151500'')\<rparr>"

text \<open>Noon of 2026-11-04, in microseconds since \<^verbatim>\<open>datetime.min\<close>.\<close>

definition sample_time :: datetime where
  "sample_time = 63929390400000000"

definition sample_cfg :: config where
  "sample_cfg = \<lparr>cooldown_seconds = 300, persistence_frames = 2, save_images = True,
                 image_dir = ''snapshots'', max_images = 1\<rparr>"

definition sample_person :: detection where
  "sample_person = \<lparr>box = (10, 10, 50, 90), label = ''Person'', confidence = 9 / 10,
                    color = (0, 200, 255), type = ''person''\<rparr>"

definition sample_miso :: detection where
  "sample_miso = \<lparr>box = (60, 40, 90, 70), label = ''Miso'', confidence = 9 / 10,
                  color = (255, 100, 255), type = ''pet''\<rparr>"

text \<open>Two frames at the same moment, a person in each, and the cat Miso in the second.\<close>

definition sample_session :: "(env \<times> detection list) list" where
  "sample_session =
     [(env_at sample_time, [sample_person]), (env_at sample_time, [sample_miso, sample_person])]"

text \<open>A state in which a person is present, and one in which a person was notified at the
  sample time, is no longer marked present and has a streak of one frame.\<close>

definition present_state :: nm_state where
  "present_state = \<lparr>last_notification = [''person'' \<mapsto> sample_time], current_state = {''person''},
                     detection_streak = [(''person'', 7)]\<rparr>"

definition cooling_state :: nm_state where
  "cooling_state = \<lparr>last_notification = [''person'' \<mapsto> sample_time], current_state = {},
                     detection_streak = [(''person'', 1)]\<rparr>"

text \<open>An image directory with two snapshots and a file that is none.\<close>

definition sample_world :: world where
  "sample_world = \<lparr>ticks = 0,
     files = [(''miso_20261103_090000.jpg'', 63929293200000000),
              (''person_20261103_101500.jpg'', 63929297700000000),
              (''notes.txt'', 63929200000000000)]\<rparr>"

text \<open>Surroundings in which the image writer raises, and in which it returns \<^verbatim>\<open>False\<close>.\<close>

definition raising_writer :: "datetime \<Rightarrow> env" where
  "raising_writer t = (env_at t)\<lparr>imwrite := (\<lambda>p. WriteRaises)\<rparr>"

definition silent_writer :: "datetime \<Rightarrow> env" where
  "silent_writer t = (env_at t)\<lparr>imwrite := (\<lambda>p. NotWritten)\<rparr>"

text \<open>A dog, for which there is no message of its own.\<close>

definition sample_dog :: detection where
  "sample_dog = \<lparr>box = (5, 5, 40, 40), label = ''Dog'', confidence = 9 / 10,
                 color = (0, 255, 0), type = ''pet''\<rparr>"

text \<open>A platform whose send raises after five units of time, one whose send completes after
  seven, and a notification to send.\<close>

definition failing_platform :: platform where
  "failing_platform = \<lparr>name = ''Telegram'', send = (\<lambda>m i. (Raised ''Telegram API error: Unauthorized'', 5))\<rparr>"

definition working_platform :: platform where
  "working_platform = \<lparr>name = ''Console'', send = (\<lambda>m i. (Delivered, 7))\<rparr>"

definition sample_notification :: notification where
  "sample_notification = \<lparr>subject = ''person'', message = ''Person detected!'', image_path = None,
                           detection = sample_person\<rparr>"

section \<open>Properties\<close>

subsection \<open>Rounding to a double\<close>

lemma round_half_even_le: "x \<le> of_int n \<Longrightarrow> round_half_even x \<le> n"
  unfolding round_half_even_def Let_def by (auto simp: floor_le_iff)

lemma round_half_even_ge: "of_int n \<le> x \<Longrightarrow> n \<le> round_half_even x"
  unfolding round_half_even_def Let_def
  by (auto simp: le_floor_iff) linarith

lemma bitlen_rat_bounds:
  assumes "0 < n"
  shows "(2::rat) powi (bitlen n - 1) \<le> of_int n" "of_int n < (2::rat) powi (bitlen n)"
proof -
  from assms have b: "1 \<le> bitlen n" by (auto simp: bitlen_alt_def)
  from bitlen_bounds [OF assms] have "2 ^ nat (bitlen n - 1) \<le> n" "n < 2 ^ nat (bitlen n)"
    by simp_all
  then have "(of_int (2 ^ nat (bitlen n - 1)) :: rat) \<le> of_int n" "(of_int n :: rat) < of_int (2 ^ nat (bitlen n))"
    by (simp_all only: of_int_le_iff of_int_less_iff)
  with b show "(2::rat) powi (bitlen n - 1) \<le> of_int n" "of_int n < (2::rat) powi (bitlen n)"
    by (simp_all add: power_int_nonneg_exp)
qed

lemma exponent_bounds:
  assumes "x \<noteq> 0"
  shows "2 powi exponent x \<le> \<bar>x\<bar> \<and> \<bar>x\<bar> < 2 powi (exponent x + 1)"
proof -
  obtain n d where q: "quotient_of x = (n, d)" by (cases "quotient_of x")
  then have d: "0 < d" and x: "x = of_int n / of_int d"
    by (simp_all add: quotient_of_denom_pos quotient_of_div)
  with assms have n: "0 < \<bar>n\<bar>" by auto
  let ?bn = "bitlen \<bar>n\<bar>" and ?bd = "bitlen d"
  let ?k = "?bn - ?bd"
  have ax: "\<bar>x\<bar> = of_int \<bar>n\<bar> / of_int d" using x d by simp
  have "of_int \<bar>n\<bar> / of_int d < (2::rat) powi ?bn / 2 powi (?bd - 1)"
    using bitlen_rat_bounds [OF n] bitlen_rat_bounds [OF d]
    by (intro frac_less) simp_all
  also have "(2::rat) powi ?bn / 2 powi (?bd - 1) = 2 powi (?k + 1)"
    by (simp add: power_int_diff [symmetric] algebra_simps)
  finally have up: "\<bar>x\<bar> < 2 powi (?k + 1)" unfolding ax .
  have "(2::rat) powi (?bn - 1) / 2 powi ?bd < of_int \<bar>n\<bar> / of_int d"
    using bitlen_rat_bounds [OF n] bitlen_rat_bounds [OF d] d
    by (intro frac_less2) simp_all
  moreover have "(2::rat) powi (?bn - 1) / 2 powi ?bd = 2 powi (?k - 1)"
    by (simp add: power_int_diff [symmetric] algebra_simps)
  ultimately have lo: "2 powi (?k - 1) < \<bar>x\<bar>" unfolding ax by simp
  show ?thesis
    using up lo q by (auto simp: exponent_def Let_def)
qed

lemma to_double_unit:
  assumes "exponent x + int j \<le> 52"
  obtains N where "j \<le> N" "(2::rat) powi (exponent x - 52) = 1 / 2 ^ N"
proof -
  let ?N = "nat (52 - exponent x)"
  from assms have "j \<le> ?N" by simp
  moreover have "(2::rat) powi (exponent x - 52) = 1 / 2 ^ ?N"
  proof -
    from assms have "exponent x - 52 = - int ?N" by simp
    then show ?thesis by (simp only: power_int_minus_divide power_int_of_nat)
  qed
  ultimately show thesis by (rule that)
qed

lemma dyadic_scaled:
  assumes "j \<le> N"
  shows "(of_int m / 2 ^ j :: rat) * 2 ^ N = of_int (m * 2 ^ (N - j))"
proof -
  from assms have "(2::rat) ^ N = 2 ^ j * 2 ^ (N - j)"
    by (simp add: power_add [symmetric])
  then show ?thesis by simp
qed

lemma to_double_le_dyadic:
  assumes "x \<noteq> 0" "exponent x + int j \<le> 52" "x \<le> of_int m / 2 ^ j"
  shows "to_double x \<le> of_int m / 2 ^ j"
proof -
  from assms(2) obtain N where N: "j \<le> N" "(2::rat) powi (exponent x - 52) = 1 / 2 ^ N"
    by (rule to_double_unit)
  from assms(3) have "x * 2 ^ N \<le> (of_int m / 2 ^ j) * 2 ^ N"
    by (rule mult_right_mono) simp
  then have "x * 2 ^ N \<le> of_int (m * 2 ^ (N - j))"
    by (simp only: dyadic_scaled [OF N(1)])
  then have "round_half_even (x * 2 ^ N) \<le> m * 2 ^ (N - j)"
    by (rule round_half_even_le)
  then have "(of_int (round_half_even (x * 2 ^ N)) :: rat) \<le> of_int (m * 2 ^ (N - j))"
    by (simp only: of_int_le_iff)
  then have "(of_int (round_half_even (x * 2 ^ N)) :: rat) \<le> (of_int m / 2 ^ j) * 2 ^ N"
    by (simp only: dyadic_scaled [OF N(1)])
  then have "(of_int (round_half_even (x * 2 ^ N)) :: rat) / 2 ^ N \<le> of_int m / 2 ^ j"
    by (simp add: pos_divide_le_eq)
  with assms(1) N(2) show ?thesis
    by (simp add: to_double_def Let_def)
qed

lemma to_double_ge_dyadic:
  assumes "x \<noteq> 0" "exponent x + int j \<le> 52" "of_int m / 2 ^ j \<le> x"
  shows "of_int m / 2 ^ j \<le> to_double x"
proof -
  from assms(2) obtain N where N: "j \<le> N" "(2::rat) powi (exponent x - 52) = 1 / 2 ^ N"
    by (rule to_double_unit)
  from assms(3) have "(of_int m / 2 ^ j) * 2 ^ N \<le> x * 2 ^ N"
    by (rule mult_right_mono) simp
  then have "of_int (m * 2 ^ (N - j)) \<le> x * 2 ^ N"
    by (simp only: dyadic_scaled [OF N(1)])
  then have "m * 2 ^ (N - j) \<le> round_half_even (x * 2 ^ N)"
    by (rule round_half_even_ge)
  then have "(of_int (m * 2 ^ (N - j)) :: rat) \<le> of_int (round_half_even (x * 2 ^ N))"
    by (simp only: of_int_le_iff)
  then have "(of_int m / 2 ^ j) * 2 ^ N \<le> (of_int (round_half_even (x * 2 ^ N)) :: rat)"
    by (simp only: dyadic_scaled [OF N(1)])
  then have "of_int m / 2 ^ j \<le> (of_int (round_half_even (x * 2 ^ N)) :: rat) / 2 ^ N"
    by (simp add: pos_le_divide_eq)
  with assms(1) N(2) show ?thesis
    by (simp add: to_double_def Let_def)
qed

lemma pow2_52_unit: "(2::rat) powi 52 * 2 powi (e - 52) = 2 powi e"
proof -
  have "(2::rat) powi 52 * 2 powi (e - 52) = 2 powi (52 + (e - 52))"
    by (rule power_int_add [symmetric]) simp
  then show ?thesis by simp
qed

lemma to_double_pos:
  assumes "0 < x"
  shows "2 powi exponent x \<le> to_double x"
proof -
  let ?u = "(2::rat) powi (exponent x - 52)"
  have u: "0 < ?u" by simp
  from assms have nz: "x \<noteq> 0" by simp
  from exponent_bounds [OF nz] assms have "2 powi exponent x \<le> x" by simp
  then have "2 powi 52 * ?u \<le> x" by (simp only: pow2_52_unit)
  then have "2 powi 52 \<le> x / ?u" using u by (simp add: pos_le_divide_eq)
  then have "of_int (2 ^ 52) \<le> x / ?u" by simp
  then have "2 ^ 52 \<le> round_half_even (x / ?u)" by (rule round_half_even_ge)
  then have "(of_int (2 ^ 52) :: rat) \<le> of_int (round_half_even (x / ?u))"
    by (simp only: of_int_le_iff)
  then have "(2::rat) powi 52 \<le> of_int (round_half_even (x / ?u))" by simp
  then have "(2::rat) powi 52 * ?u \<le> of_int (round_half_even (x / ?u)) * ?u"
    using u by (simp only: mult_le_cancel_right_pos)
  then have "2 powi exponent x \<le> of_int (round_half_even (x / ?u)) * ?u"
    by (simp only: pow2_52_unit)
  with nz show ?thesis by (simp add: to_double_def Let_def)
qed

lemma to_double_neg:
  assumes "x < 0"
  shows "to_double x \<le> - (2 powi exponent x)"
proof -
  let ?u = "(2::rat) powi (exponent x - 52)"
  have u: "0 < ?u" by simp
  have m: "- ((2::rat) powi 52) * ?u = - (2 powi exponent x)"
    by (simp only: mult_minus_left pow2_52_unit)
  from assms have nz: "x \<noteq> 0" by simp
  from exponent_bounds [OF nz] assms have "x \<le> - (2 powi exponent x)" by simp
  then have "x \<le> - (2 powi 52) * ?u" by (simp only: m)
  then have "x / ?u \<le> - (2 powi 52)" using u by (simp only: pos_divide_le_eq)
  then have "x / ?u \<le> of_int (- (2 ^ 52))" by simp
  then have "round_half_even (x / ?u) \<le> - (2 ^ 52)" by (rule round_half_even_le)
  then have "(of_int (round_half_even (x / ?u)) :: rat) \<le> of_int (- (2 ^ 52))"
    by (simp only: of_int_le_iff)
  then have "(of_int (round_half_even (x / ?u)) :: rat) \<le> - (2 powi 52)" by simp
  then have "(of_int (round_half_even (x / ?u)) :: rat) * ?u \<le> - (2 powi 52) * ?u"
    using u by (simp only: mult_le_cancel_right_pos)
  then have "of_int (round_half_even (x / ?u)) * ?u \<le> - (2 powi exponent x)"
    by (simp only: m)
  with nz show ?thesis by (simp add: to_double_def Let_def)
qed


lemma pow2_ge: "int k \<le> e \<Longrightarrow> (2::rat) ^ k \<le> 2 powi e"
proof -
  assume "int k \<le> e"
  then have "(2::rat) powi int k \<le> 2 powi e" by (intro power_int_increasing) simp_all
  then show ?thesis by simp
qed

lemma int_le_to_double:
  assumes "\<bar>c\<bar> < 2 ^ 53" "of_int c \<le> x"
  shows "of_int c \<le> to_double x"
proof (cases "x = 0")
  case True
  with assms(2) show ?thesis by (simp add: to_double_def)
next
  case nz: False
  show ?thesis
  proof (cases "exponent x \<le> 52")
    case True
    from assms(2) have "of_int c / 2 ^ 0 \<le> x" by simp
    from to_double_ge_dyadic [OF nz _ this] True show ?thesis by simp
  next
    case False
    then have "int 53 \<le> exponent x" by simp
    then have "(2::rat) ^ 53 \<le> 2 powi exponent x" by (rule pow2_ge)
    moreover from assms(1) have "(of_int c :: rat) < 2 ^ 53" "- (2 ^ 53) < (of_int c :: rat)"
      by (simp_all add: abs_less_iff)
    ultimately have c: "of_int c < (2::rat) powi exponent x" "- (2 powi exponent x) < (of_int c :: rat)"
      by simp_all
    show ?thesis
    proof (cases "0 < x")
      case True
      from to_double_pos [OF True] c(1) show ?thesis by simp
    next
      case False
      with nz have "x < 0" by simp
      with exponent_bounds [OF nz] have "x \<le> - (2 powi exponent x)" by simp
      with c(2) assms(2) show ?thesis by simp
    qed
  qed
qed


lemma to_double_less_int:
  assumes "\<bar>c\<bar> < 2 ^ 33" "x \<le> of_int c - 1 / 2 ^ 20"
  shows "to_double x < of_int c"
proof (cases "x = 0")
  case True
  with assms(2) show ?thesis by (simp add: to_double_def)
next
  case nz: False
  have z: "(of_int c :: rat) - 1 / 2 ^ 20 = of_int (c * 2 ^ 20 - 1) / 2 ^ 20"
    by (simp add: field_simps)
  show ?thesis
  proof (cases "exponent x \<le> 32")
    case True
    from assms(2) have "x \<le> of_int (c * 2 ^ 20 - 1) / 2 ^ 20" by (simp only: z)
    from to_double_le_dyadic [OF nz _ this] True
    have "to_double x \<le> of_int (c * 2 ^ 20 - 1) / 2 ^ 20" by simp
    then have "to_double x \<le> of_int c - 1 / 2 ^ 20" by (simp only: z)
    then show ?thesis by simp
  next
    case False
    then have "int 33 \<le> exponent x" by simp
    then have "(2::rat) ^ 33 \<le> 2 powi exponent x" by (rule pow2_ge)
    moreover from assms(1) have "(of_int c :: rat) < 2 ^ 33" "- (2 ^ 33) < (of_int c :: rat)"
      by (simp_all add: abs_less_iff)
    ultimately have c: "of_int c < (2::rat) powi exponent x" "- (2 powi exponent x) < (of_int c :: rat)"
      by simp_all
    show ?thesis
    proof (cases "0 < x")
      case True
      with exponent_bounds [OF nz] have "2 powi exponent x \<le> x" by simp
      with c(1) assms(2) show ?thesis by simp
    next
      case False
      with nz have "x < 0" by simp
      from to_double_neg [OF this] c(2) show ?thesis by simp
    qed
  qed
qed

lemma seconds_le: "(of_int c :: rat) \<le> of_int d / 1000000 \<longleftrightarrow> c * 1000000 \<le> d"
proof -
  have "(of_int c :: rat) \<le> of_int d / 1000000 \<longleftrightarrow> (of_int (c * 1000000) :: rat) \<le> of_int d"
    by (simp add: pos_le_divide_eq)
  then show ?thesis by (simp only: of_int_le_iff)
qed


lemma total_seconds_geI:
  assumes "\<bar>c\<bar> < 2 ^ 53" "c * 1000000 \<le> d"
  shows "total_seconds_ge d c"
  unfolding total_seconds_ge_def total_seconds_def
  using assms(2) by (intro int_le_to_double [OF assms(1)]) (simp only: seconds_le)


lemma total_seconds_ge_iff:
  assumes "\<bar>c\<bar> < 2 ^ 33"
  shows "total_seconds_ge d c = (c * 1000000 \<le> d)"
proof
  assume ge: "total_seconds_ge d c"
  show "c * 1000000 \<le> d"
  proof (rule ccontr)
    assume "\<not> c * 1000000 \<le> d"
    then have "d \<le> c * 1000000 - 1" by simp
    then have "(of_int d :: rat) \<le> of_int (c * 1000000 - 1)" by (simp only: of_int_le_iff)
    then have "(of_int d :: rat) / 1000000 \<le> of_int c - 1 / 1000000"
      by (simp add: field_simps)
    also have "\<dots> \<le> of_int c - 1 / 2 ^ 20" by simp
    finally have "to_double (of_int d / 1000000) < of_int c"
      by (rule to_double_less_int [OF assms])
    with ge show False by (simp add: total_seconds_ge_def total_seconds_def)
  qed
next
  assume le: "c * 1000000 \<le> d"
  from assms have "\<bar>c\<bar> < 2 ^ 53" by simp
  from total_seconds_geI [OF this le] show "total_seconds_ge d c" .
qed



subsection \<open>The state and the clock\<close>

lemma streak_of_incr: "streak_of (streak_incr st s) x = (if x = s then streak_of st s + 1 else streak_of st x)"
  by (simp add: streak_of_def streak_incr_def AList.update_conv')

lemma current_state_incr: "current_state (streak_incr st s) = current_state st"
  by (simp add: streak_incr_def)

lemma last_notified_incr: "last_notified (streak_incr st s) x = last_notified st x"
  by (simp add: streak_incr_def last_notified_def)

lemma getitem_fst: "fst (last_notification_getitem st s) = last_notified st s"
  by (simp add: last_notification_getitem_def last_notified_def split: option.splits)

lemma getitem_snd:
  "streak_of (snd (last_notification_getitem st s)) x = streak_of st x"
  "current_state (snd (last_notification_getitem st s)) = current_state st"
  "last_notified (snd (last_notification_getitem st s)) x = last_notified st x"
  "detection_streak (snd (last_notification_getitem st s)) = detection_streak st"
  by (simp_all add: last_notification_getitem_def last_notified_def streak_of_def split: option.splits)

lemma is_cooled_down_eq:
  "is_cooled_down cfg e s st w =
     (cooldown_over cfg (last_notified st s) (clock e (ticks w)),
      snd (last_notification_getitem st s), w\<lparr>ticks := Suc (ticks w)\<rparr>)"
  by (simp add: is_cooled_down_def datetime_now_def cooldown_over_def getitem_fst [symmetric] split: prod.splits)

lemma create_notification_world: "snd (create_notification e s d w) = w\<lparr>ticks := Suc (ticks w)\<rparr>"
  by (simp add: create_notification_def datetime_now_def)

subsection \<open>The snapshot store\<close>

lemma unlink_present: "x \<in> fst ` set fs \<Longrightarrow> unlink x fs = Inr (filter (\<lambda>p. fst p \<noteq> x) fs)"
  by (simp add: unlink_def)

lemma cleanup_loop_ok:
  "0 \<le> m \<Longrightarrow> distinct images \<Longrightarrow> set images \<subseteq> fst ` set fs \<Longrightarrow>
   cleanup_loop m images fs =
     Inr (filter (\<lambda>p. fst p \<notin> set (take (length images - nat m) images)) fs)"
proof (induction images arbitrary: fs)
  case Nil
  then show ?case by simp
next
  case (Cons oldest images)
  show ?case
  proof (cases "int (length (oldest # images)) > m")
    case True
    let ?fs' = "filter (\<lambda>p. fst p \<noteq> oldest) fs"
    from Cons.prems have un: "unlink oldest fs = Inr ?fs'"
      by (simp add: unlink_present)
    have sub: "set images \<subseteq> fst ` set ?fs'"
    proof
      fix x assume x: "x \<in> set images"
      with Cons.prems obtain p where "p \<in> set fs" "fst p = x" by auto
      moreover from x Cons.prems have "x \<noteq> oldest" by auto
      ultimately show "x \<in> fst ` set ?fs'" by force
    qed
    from Cons.prems have d: "distinct images" by simp
    from True Cons.prems(1) have len: "length (oldest # images) - nat m = Suc (length images - nat m)"
      by auto
    have "cleanup_loop m (oldest # images) fs = cleanup_loop m images ?fs'"
      using True un by simp
    also have "\<dots> = Inr (filter (\<lambda>p. fst p \<notin> set (take (length images - nat m) images)) ?fs')"
      using Cons.IH [OF Cons.prems(1) d sub] .
    also have "filter (\<lambda>p. fst p \<notin> set (take (length images - nat m) images)) ?fs' =
               filter (\<lambda>p. fst p \<notin> set (take (length (oldest # images) - nat m) (oldest # images))) fs"
      unfolding len by (auto intro: filter_cong)
    finally show ?thesis .
  next
    case False
    then have "length (oldest # images) - nat m = 0" by auto
    with False show ?thesis by simp
  qed
qed

lemma distinct_map_insort_key:
  "distinct (map g (insort_key f x xs)) = (g x \<notin> g ` set xs \<and> distinct (map g xs))"
  by (induction xs) (auto simp: set_insort_key)

lemma distinct_map_sort_key: "distinct (map g (sort_key f xs)) = distinct (map g xs)"
  by (induction xs) (auto simp: distinct_map_insort_key)

lemma distinct_glob: "distinct (map fst fs) \<Longrightarrow> distinct (map fst (glob_jpg fs))"
  by (simp add: glob_jpg_def distinct_map_filter)

lemma cleanup_old_images_ok:
  assumes "0 \<le> max_images cfg" "distinct (map fst fs)" "save_images cfg"
  shows "cleanup_old_images cfg fs =
           Inr (filter (\<lambda>p. fst p \<notin> fst ` set (take (length (glob_jpg fs) - nat (max_images cfg))
                                                  (sort_key snd (glob_jpg fs)))) fs)"
proof -
  let ?imgs = "sort_key snd (glob_jpg fs)"
  have d: "distinct (map fst ?imgs)"
    using assms(2) by (simp add: distinct_map_sort_key distinct_glob)
  have sub: "set (map fst ?imgs) \<subseteq> fst ` set fs"
    by (auto simp: glob_jpg_def)
  show ?thesis
    using cleanup_loop_ok [OF assms(1) d sub] assms(3)
    by (simp add: cleanup_old_images_def take_map)
qed

lemma distinct_store_image: "distinct (map fst fs) \<Longrightarrow> distinct (map fst (store_image oc f fs))"
  by (simp add: store_image_def distinct_update split: write_outcome.splits)

lemma save_snapshot_ok:
  assumes "store_ok cfg (files w)" "save_images cfg" "imwrite e (image_dir cfg @ ''/'' @ subj @ ''_'' @ strftime_stamp e (clock e (ticks w)) @ ''.jpg'') \<noteq> WriteRaises"
  shows "\<exists>fs'. save_snapshot cfg e subj dets w =
            Inr (image_dir cfg @ ''/'' @ subj @ ''_'' @ strftime_stamp e (clock e (ticks w)) @ ''.jpg'',
                 \<lparr>ticks = Suc (ticks w), files = fs'\<rparr>) \<and> store_ok cfg fs'"
proof -
  let ?fn = "subj @ ''_'' @ strftime_stamp e (clock e (ticks w)) @ ''.jpg''"
  let ?oc = "imwrite e (image_dir cfg @ ''/'' @ ?fn)"
  let ?d = "store_image ?oc ?fn (files w)"
  from assms have m: "0 \<le> max_images cfg" and dd: "distinct (map fst ?d)"
    by (simp_all add: store_ok_def distinct_store_image)
  from cleanup_old_images_ok [OF m dd assms(2)]
  obtain fs' where c: "cleanup_old_images cfg ?d = Inr fs'" and f: "fs' = filter (\<lambda>p. fst p \<notin> fst ` set (take (length (glob_jpg ?d) - nat (max_images cfg))
                                                  (sort_key snd (glob_jpg ?d)))) ?d"
    by blast
  from f dd have "distinct (map fst fs')" by (simp add: distinct_map_filter)
  with m have "store_ok cfg fs'" by (simp add: store_ok_def)
  moreover have "save_snapshot cfg e subj dets w = Inr (image_dir cfg @ ''/'' @ ?fn, \<lparr>ticks = Suc (ticks w), files = fs'\<rparr>)"
    using assms(3) c by (cases ?oc) (simp_all add: save_snapshot_def datetime_now_def Let_def)
  ultimately show ?thesis by blast
qed





subsection \<open>One detection, one frame\<close>

lemma streak_of_record:
  "streak_of (st\<lparr>last_notification := L, current_state := C\<rparr>) x = streak_of st x"
  by (simp add: streak_of_def)

lemma last_notified_record:
  "last_notified (st\<lparr>last_notification := (last_notification st)(s \<mapsto> t), current_state := C\<rparr>) x =
     (if x = s then t else last_notified st x)"
  by (simp add: last_notified_def)

lemmas step_simps = detect_step_def is_cooled_down_eq Let_def streak_of_incr current_state_incr
  last_notified_incr getitem_snd streak_of_record last_notified_record

lemma detect_step_other:
  assumes "lower (label d) \<noteq> s" "detect_step cfg e D d st w = Inr (n, st', w')"
  shows "streak_of st' s = streak_of st s" "(s \<in> current_state st') = (s \<in> current_state st)"
        "last_notified st' s = last_notified st s" "\<forall>x. n = Some x \<longrightarrow> subject x \<noteq> s"
  using assms
  by (auto simp: step_simps split: if_splits prod.splits sum.splits)

lemma detect_step_quiet:
  assumes "lower (label d) = s"
     and "streak_of st s + 1 < persistence_frames cfg \<or> s \<in> current_state st \<or>
          \<not> cooldown_over cfg (last_notified st s) (clock e (ticks w))"
  shows "\<exists>st' w'. detect_step cfg e D d st w = Inr (None, st', w') \<and> files w' = files w \<and>
           streak_of st' s = streak_of st s + 1 \<and> (s \<in> current_state st') = (s \<in> current_state st) \<and>
           last_notified st' s = last_notified st s"
  using assms
  by (auto simp: step_simps split: if_splits prod.splits sum.splits)


lemma detect_step_fire:
  assumes subj: "lower (label d) = s"
      and thr: "persistence_frames cfg \<le> streak_of st s + 1"
      and new: "s \<notin> current_state st"
      and cool: "cooldown_over cfg (last_notified st s) (clock e (ticks w))"
      and wr: "writer_ok cfg e" and sto: "store_ok cfg (files w)"
  shows "\<exists>x st' w'. detect_step cfg e D d st w = Inr (Some x, st', w') \<and> subject x = s \<and>
           detection x = d \<and> (image_path x = None) = (\<not> save_images cfg) \<and>
           store_ok cfg (files w') \<and>
           streak_of st' s = streak_of st s + 1 \<and> s \<in> current_state st' \<and>
           last_notified st' s = clock e (ticks w + (if save_images cfg then 3 else 2))"
proof (cases "save_images cfg")
  case False
  with subj thr new cool sto show ?thesis
    by (simp add: step_simps case_prod_beta create_notification_world datetime_now_def store_ok_def eval_nat_numeral)
next
  case True
  let ?w3 = "w\<lparr>ticks := Suc (Suc (ticks w))\<rparr>"
  from sto have "store_ok cfg (files ?w3)" by simp
  moreover from wr True
  have "imwrite e (image_dir cfg @ ''/'' @ s @ ''_'' @ strftime_stamp e (clock e (ticks ?w3)) @ ''.jpg'') \<noteq> WriteRaises"
    by (simp add: writer_ok_def)
  ultimately obtain fs' p where
    sv: "save_snapshot cfg e s D ?w3 = Inr (p, \<lparr>ticks = Suc (ticks ?w3), files = fs'\<rparr>)"
    and ok: "store_ok cfg fs'"
    using save_snapshot_ok [OF _ True, of ?w3 e s D] by blast
  from subj thr new cool True sv ok show ?thesis
    by (simp add: step_simps case_prod_beta create_notification_world datetime_now_def eval_nat_numeral)
qed

lemma detect_step_returns:
  assumes "writer_ok cfg e" "store_ok cfg (files w)"
  shows "\<exists>n st' w'. detect_step cfg e D d st w = Inr (n, st', w') \<and> store_ok cfg (files w')"
proof (cases "persistence_frames cfg \<le> streak_of st (lower (label d)) + 1 \<and>
              lower (label d) \<notin> current_state st \<and>
              cooldown_over cfg (last_notified st (lower (label d))) (clock e (ticks w))")
  case True
  with detect_step_fire [OF refl _ _ _ assms, where d=d and st=st and D=D] show ?thesis by blast
next
  case False
  then have "streak_of st (lower (label d)) + 1 < persistence_frames cfg \<or>
             lower (label d) \<in> current_state st \<or>
             \<not> cooldown_over cfg (last_notified st (lower (label d))) (clock e (ticks w))"
    by auto
  from detect_step_quiet [OF refl this, where D=D] assms(2) show ?thesis
    by (auto simp: store_ok_def)
qed


lemma detect_loop_Cons_Inr:
  assumes "detect_loop cfg e D (d # dets) st w S N = Inr R"
  obtains n st1 w1 where "detect_step cfg e D d st w = Inr (n, st1, w1)"
    and "detect_loop cfg e D dets st1 w1 (insert (lower (label d)) S)
           (N @ (case n of None \<Rightarrow> [] | Some x \<Rightarrow> [x])) = Inr R"
  using assms by (auto split: sum.splits)

lemma detect_loop_returns:
  assumes "writer_ok cfg e" "store_ok cfg (files w)"
  shows "\<exists>st' w' N'. detect_loop cfg e D dets st w S N =
            Inr (st', w', S \<union> (\<lambda>d. lower (label d)) ` set dets, N') \<and> store_ok cfg (files w')"
  using assms(2)
proof (induction dets arbitrary: st w S N)
  case Nil
  then show ?case by simp
next
  case (Cons d dets)
  from detect_step_returns [OF assms(1) Cons.prems, of D d st]
  obtain n st1 w1 where st: "detect_step cfg e D d st w = Inr (n, st1, w1)"
    and ok: "store_ok cfg (files w1)" by blast
  from Cons.IH [OF ok, of st1 "insert (lower (label d)) S" "N @ (case n of None \<Rightarrow> [] | Some x \<Rightarrow> [x])"] st
  show ?case by auto
qed

lemma detect_loop_none:
  assumes "bearing s dets = []" "detect_loop cfg e D dets st w S N = Inr (st', w', S', N')"
  shows "streak_of st' s = streak_of st s \<and> (s \<in> current_state st') = (s \<in> current_state st) \<and>
         last_notified st' s = last_notified st s \<and> about s N' = about s N"
  using assms
proof (induction dets arbitrary: st w S N)
  case Nil
  then show ?case by simp
next
  case (Cons d dets)
  from Cons.prems(1) have ne: "lower (label d) \<noteq> s" and rest: "bearing s dets = []"
    by (auto simp: bearing_def split: if_splits)
  from Cons.prems(2) obtain n st1 w1 where st: "detect_step cfg e D d st w = Inr (n, st1, w1)"
    and lp: "detect_loop cfg e D dets st1 w1 (insert (lower (label d)) S)
               (N @ (case n of None \<Rightarrow> [] | Some x \<Rightarrow> [x])) = Inr (st', w', S', N')"
    by (rule detect_loop_Cons_Inr)
  from detect_step_other [OF ne st] Cons.IH [OF rest lp]
  show ?case by (auto simp: about_def split: option.splits)
qed

lemma bearing_one_Cons:
  assumes "length (bearing s (d # dets)) = 1"
  shows "(lower (label d) = s \<and> bearing s dets = []) \<or>
         (lower (label d) \<noteq> s \<and> length (bearing s dets) = 1)"
  using assms by (auto simp: bearing_def split: if_splits)

lemma detect_loop_quiet:
  assumes "length (bearing s dets) = 1"
      and "streak_of st s + 1 < persistence_frames cfg \<or> s \<in> current_state st \<or>
           (\<forall>i. \<not> cooldown_over cfg (last_notified st s) (clock e i))"
      and "detect_loop cfg e D dets st w S N = Inr (st', w', S', N')"
  shows "streak_of st' s = streak_of st s + 1 \<and> (s \<in> current_state st') = (s \<in> current_state st) \<and>
         last_notified st' s = last_notified st s \<and> about s N' = about s N"
  using assms
proof (induction dets arbitrary: st w S N)
  case Nil
  then show ?case by (simp add: bearing_def)
next
  case (Cons d dets)
  from Cons.prems(3) obtain n st1 w1 where st: "detect_step cfg e D d st w = Inr (n, st1, w1)"
    and lp: "detect_loop cfg e D dets st1 w1 (insert (lower (label d)) S)
               (N @ (case n of None \<Rightarrow> [] | Some x \<Rightarrow> [x])) = Inr (st', w', S', N')"
    by (rule detect_loop_Cons_Inr)
  from bearing_one_Cons [OF Cons.prems(1)] show ?case
  proof
    assume a: "lower (label d) = s \<and> bearing s dets = []"
    from Cons.prems(2) have "streak_of st s + 1 < persistence_frames cfg \<or> s \<in> current_state st \<or>
          \<not> cooldown_over cfg (last_notified st s) (clock e (ticks w))" by blast
    from detect_step_quiet [OF conjunct1 [OF a] this, of D] st
    have "n = None" "streak_of st1 s = streak_of st s + 1"
      "(s \<in> current_state st1) = (s \<in> current_state st)" "last_notified st1 s = last_notified st s"
      by auto
    with detect_loop_none [OF conjunct2 [OF a] lp] show ?thesis by simp
  next
    assume a: "lower (label d) \<noteq> s \<and> length (bearing s dets) = 1"
    from detect_step_other [OF conjunct1 [OF a] st]
    have o: "streak_of st1 s = streak_of st s" "(s \<in> current_state st1) = (s \<in> current_state st)"
      "last_notified st1 s = last_notified st s" "\<forall>x. n = Some x \<longrightarrow> subject x \<noteq> s" by auto
    with Cons.prems(2) have "streak_of st1 s + 1 < persistence_frames cfg \<or> s \<in> current_state st1 \<or>
           (\<forall>i. \<not> cooldown_over cfg (last_notified st1 s) (clock e i))" by simp
    from Cons.IH [OF conjunct2 [OF a] this lp] o show ?thesis
      by (auto simp: about_def split: option.splits)
  qed
qed

lemma detect_loop_fire:
  assumes "length (bearing s dets) = 1"
      and "persistence_frames cfg \<le> streak_of st s + 1" "s \<notin> current_state st"
      and "\<forall>i. cooldown_over cfg (last_notified st s) (clock e i)"
      and "writer_ok cfg e" "store_ok cfg (files w)"
      and "detect_loop cfg e D dets st w S N = Inr (st', w', S', N')"
  shows "streak_of st' s = streak_of st s + 1 \<and> s \<in> current_state st' \<and>
         last_notified st' s \<in> range (clock e) \<and>
         (\<exists>x. about s N' = about s N @ [x] \<and> (image_path x = None) = (\<not> save_images cfg) \<and>
              x \<in> set N' \<and> detection x \<in> set dets)"
  using assms(1,2,3,4,6,7)
proof (induction dets arbitrary: st w S N)
  case Nil
  then show ?case by (simp add: bearing_def)
next
  case (Cons d dets)
  from Cons.prems(6) obtain n st1 w1 where st: "detect_step cfg e D d st w = Inr (n, st1, w1)"
    and lp: "detect_loop cfg e D dets st1 w1 (insert (lower (label d)) S)
               (N @ (case n of None \<Rightarrow> [] | Some x \<Rightarrow> [x])) = Inr (st', w', S', N')"
    by (rule detect_loop_Cons_Inr)
  from bearing_one_Cons [OF Cons.prems(1)] show ?case
  proof
    assume a: "lower (label d) = s \<and> bearing s dets = []"
    from Cons.prems(4) have "cooldown_over cfg (last_notified st s) (clock e (ticks w))" by blast
    from detect_step_fire [OF conjunct1 [OF a] Cons.prems(2,3) this assms(5) Cons.prems(5), of D] st
    obtain x where x: "n = Some x" "subject x = s" "detection x = d"
      "(image_path x = None) = (\<not> save_images cfg)"
      "streak_of st1 s = streak_of st s + 1" "s \<in> current_state st1"
      "last_notified st1 s \<in> range (clock e)"
      by auto
    from detect_loop_none [OF conjunct2 [OF a] lp] x
    have "streak_of st' s = streak_of st s + 1" "s \<in> current_state st'"
      "last_notified st' s \<in> range (clock e)" "about s N' = about s N @ [x]"
      by (simp_all add: about_def)
    moreover from this(4) have "x \<in> set N'"
      by (metis about_def filter_is_subset in_set_conv_decomp subsetD)
    ultimately show ?thesis using x by auto
  next
    assume a: "lower (label d) \<noteq> s \<and> length (bearing s dets) = 1"
    from detect_step_other [OF conjunct1 [OF a] st]
    have o: "streak_of st1 s = streak_of st s" "(s \<in> current_state st1) = (s \<in> current_state st)"
      "last_notified st1 s = last_notified st s" "\<forall>x. n = Some x \<longrightarrow> subject x \<noteq> s" by auto
    from detect_step_returns [OF assms(5) Cons.prems(5), of D d st] st
    have ok: "store_ok cfg (files w1)" by auto
    from o Cons.prems have p: "persistence_frames cfg \<le> streak_of st1 s + 1" "s \<notin> current_state st1"
      "\<forall>i. cooldown_over cfg (last_notified st1 s) (clock e i)" by simp_all
    from Cons.IH [OF conjunct2 [OF a] p ok lp] o show ?thesis
      by (auto simp: about_def split: option.splits)
  qed
qed


lemma streak_of_update:
  "streak_of (st\<lparr>detection_streak := AList.update k v (detection_streak st)\<rparr>) x =
     (if x = k then v else streak_of st x)"
  by (simp add: streak_of_def AList.update_conv')

lemma streak_of_current_update: "streak_of (st\<lparr>current_state := C\<rparr>) x = streak_of st x"
  by (simp add: streak_of_def)

lemma reset_loop_streak:
  "streak_of (reset_loop keys S st) x = (if x \<in> set keys \<and> x \<notin> S then 0 else streak_of st x)"
  by (induction keys arbitrary: st) (auto simp: Let_def streak_of_update streak_of_current_update)

lemma reset_loop_current:
  "current_state (reset_loop keys S st) = current_state st - {x \<in> set keys. x \<notin> S}"
  by (induction keys arbitrary: st) (auto simp: Let_def)

lemma reset_loop_last: "last_notification (reset_loop keys S st) = last_notification st"
  by (induction keys arbitrary: st) (auto simp: Let_def)

lemma last_notified_reset: "last_notified (reset_loop keys S st) x = last_notified st x"
  by (simp add: last_notified_def reset_loop_last)

lemma streak_of_key: "streak_of st x \<noteq> 0 \<Longrightarrow> x \<in> set (map fst (detection_streak st))"
  by (auto simp: streak_of_def map_of_eq_None_iff split: option.splits)
    (metis fst_conv image_eqI map_of_SomeD)

lemma bearing_subject: "bearing s dets \<noteq> [] \<Longrightarrow> s \<in> (\<lambda>d. lower (label d)) ` set dets"
  by (induction dets) (auto simp: bearing_def split: if_splits)

lemma bearing_no_subject: "bearing s dets = [] \<Longrightarrow> s \<notin> (\<lambda>d. lower (label d)) ` set dets"
  by (induction dets) (auto simp: bearing_def split: if_splits)

lemma process_detections_returns:
  assumes "writer_ok cfg e" "store_ok cfg fs"
  obtains ns st1 w1 where
    "detect_loop cfg e dets dets st \<lparr>ticks = 0, files = fs\<rparr> {} [] =
       Inr (st1, w1, (\<lambda>d. lower (label d)) ` set dets, ns)"
    "process_detections cfg e st fs dets =
       Inr (ns, reset_loop (map fst (detection_streak st1)) ((\<lambda>d. lower (label d)) ` set dets) st1, files w1)"
    "store_ok cfg (files w1)"
proof -
  from assms(2) have "store_ok cfg (files \<lparr>ticks = 0, files = fs\<rparr>)" by simp
  from detect_loop_returns [OF assms(1) this, of dets dets st "{}" "[]"]
  obtain st1 w1 ns where l: "detect_loop cfg e dets dets st \<lparr>ticks = 0, files = fs\<rparr> {} [] =
       Inr (st1, w1, (\<lambda>d. lower (label d)) ` set dets, ns)" and ok: "store_ok cfg (files w1)"
    by auto
  then have "process_detections cfg e st fs dets =
       Inr (ns, reset_loop (map fst (detection_streak st1)) ((\<lambda>d. lower (label d)) ` set dets) st1, files w1)"
    by (simp add: process_detections_def)
  with l ok that show thesis by blast
qed

lemma frame_quiet:
  assumes "writer_ok cfg e" "store_ok cfg fs" "length (bearing s dets) = 1"
      and "streak_of st s + 1 < persistence_frames cfg \<or> s \<in> current_state st \<or>
           (\<forall>i. \<not> cooldown_over cfg (last_notified st s) (clock e i))"
  shows "\<exists>ns st' fs'. process_detections cfg e st fs dets = Inr (ns, st', fs') \<and> store_ok cfg fs' \<and>
           about s ns = [] \<and> streak_of st' s = streak_of st s + 1 \<and>
           (s \<in> current_state st') = (s \<in> current_state st) \<and>
           last_notified st' s = last_notified st s"
proof -
  from assms(1,2) obtain ns st1 w1 where
    l: "detect_loop cfg e dets dets st \<lparr>ticks = 0, files = fs\<rparr> {} [] =
       Inr (st1, w1, (\<lambda>d. lower (label d)) ` set dets, ns)"
    and p: "process_detections cfg e st fs dets =
       Inr (ns, reset_loop (map fst (detection_streak st1)) ((\<lambda>d. lower (label d)) ` set dets) st1, files w1)"
    and ok: "store_ok cfg (files w1)"
    by (rule process_detections_returns)
  from assms(3) have "bearing s dets \<noteq> []" by auto
  then have here: "s \<in> (\<lambda>d. lower (label d)) ` set dets" by (rule bearing_subject)
  from detect_loop_quiet [OF assms(3,4) l] here p ok show ?thesis
    by (simp add: reset_loop_streak reset_loop_current last_notified_reset about_def)
qed

lemma frame_fire:
  assumes "writer_ok cfg e" "store_ok cfg fs" "length (bearing s dets) = 1"
      and "persistence_frames cfg \<le> streak_of st s + 1" "s \<notin> current_state st"
      and "\<forall>i. cooldown_over cfg (last_notified st s) (clock e i)"
  shows "\<exists>ns st' fs' x. process_detections cfg e st fs dets = Inr (ns, st', fs') \<and> store_ok cfg fs' \<and>
           about s ns = [x] \<and> (image_path x = None) = (\<not> save_images cfg) \<and>
           streak_of st' s = streak_of st s + 1 \<and>
           s \<in> current_state st' \<and> last_notified st' s \<in> range (clock e)"
proof -
  from assms(1,2) obtain ns st1 w1 where
    l: "detect_loop cfg e dets dets st \<lparr>ticks = 0, files = fs\<rparr> {} [] =
       Inr (st1, w1, (\<lambda>d. lower (label d)) ` set dets, ns)"
    and p: "process_detections cfg e st fs dets =
       Inr (ns, reset_loop (map fst (detection_streak st1)) ((\<lambda>d. lower (label d)) ` set dets) st1, files w1)"
    and ok: "store_ok cfg (files w1)"
    by (rule process_detections_returns)
  from assms(3) have "bearing s dets \<noteq> []" by auto
  then have here: "s \<in> (\<lambda>d. lower (label d)) ` set dets" by (rule bearing_subject)
  from assms(2) have "store_ok cfg (files \<lparr>ticks = 0, files = fs\<rparr>)" by simp
  from detect_loop_fire [OF assms(3,4,5,6,1) this l] here p ok show ?thesis
    by (auto simp: reset_loop_streak reset_loop_current last_notified_reset about_def)
qed

lemma keys_incr:
  "fst ` set (detection_streak (streak_incr st s)) = insert s (fst ` set (detection_streak st))"
  by (simp add: streak_incr_def AList.dom_update)

lemma detect_step_streaks:
  assumes "detect_step cfg e D d st w = Inr (n, st', w')"
  shows "detection_streak st' = detection_streak (streak_incr st (lower (label d)))"
  using assms
  by (simp add: detect_step_def is_cooled_down_eq Let_def split: if_splits prod.splits sum.splits)
     (auto simp: getitem_snd)

lemma detect_step_keys:
  assumes "detect_step cfg e D d st w = Inr (n, st', w')"
  shows "fst ` set (detection_streak st') = insert (lower (label d)) (fst ` set (detection_streak st))"
  by (simp only: detect_step_streaks [OF assms] keys_incr)

lemma detect_loop_keys:
  assumes "detect_loop cfg e D dets st w S N = Inr (st', w', S', N')"
  shows "fst ` set (detection_streak st') =
           fst ` set (detection_streak st) \<union> (\<lambda>d. lower (label d)) ` set dets"
  using assms
proof (induction dets arbitrary: st w S N)
  case Nil
  then show ?case by simp
next
  case (Cons d dets)
  from Cons.prems obtain n st1 w1 where st: "detect_step cfg e D d st w = Inr (n, st1, w1)"
    and lp: "detect_loop cfg e D dets st1 w1 (insert (lower (label d)) S)
               (N @ (case n of None \<Rightarrow> [] | Some x \<Rightarrow> [x])) = Inr (st', w', S', N')"
    by (rule detect_loop_Cons_Inr)
  from Cons.IH [OF lp] detect_step_keys [OF st] show ?case by auto
qed

lemma frame_absent:
  assumes "writer_ok cfg e" "store_ok cfg fs" "bearing s dets = []"
  shows "\<exists>ns st' fs'. process_detections cfg e st fs dets = Inr (ns, st', fs') \<and> store_ok cfg fs' \<and>
           about s ns = [] \<and> last_notified st' s = last_notified st s \<and>
           (if s \<in> fst ` set (detection_streak st) then streak_of st' s = 0 \<and> s \<notin> current_state st'
            else streak_of st' s = streak_of st s \<and> (s \<in> current_state st') = (s \<in> current_state st))"
proof -
  from assms(1,2) obtain ns st1 w1 where
    l: "detect_loop cfg e dets dets st \<lparr>ticks = 0, files = fs\<rparr> {} [] =
       Inr (st1, w1, (\<lambda>d. lower (label d)) ` set dets, ns)"
    and p: "process_detections cfg e st fs dets =
       Inr (ns, reset_loop (map fst (detection_streak st1)) ((\<lambda>d. lower (label d)) ` set dets) st1, files w1)"
    and ok: "store_ok cfg (files w1)"
    by (rule process_detections_returns)
  from assms(3) have away: "s \<notin> (\<lambda>d. lower (label d)) ` set dets" by (rule bearing_no_subject)
  from detect_loop_keys [OF l] away
  have k: "(s \<in> fst ` set (detection_streak st1)) = (s \<in> fst ` set (detection_streak st))" by auto
  from detect_loop_none [OF assms(3) l] away p ok k show ?thesis
    by (simp add: reset_loop_streak reset_loop_current last_notified_reset about_def)
qed

text \<open>When the image writer raises.\<close>

lemma save_snapshot_raises:
  assumes "\<forall>p. imwrite e p = WriteRaises"
  shows "save_snapshot cfg e subj dets w = Inl (Cv2Error, w\<lparr>ticks := Suc (ticks w)\<rparr>)"
  using assms by (simp add: save_snapshot_def datetime_now_def Let_def)

lemma detect_step_raises:
  assumes "lower (label d) = s" "persistence_frames cfg \<le> streak_of st s + 1"
      and "s \<notin> current_state st" "cooldown_over cfg (last_notified st s) (clock e (ticks w))"
      and "save_images cfg" "\<forall>p. imwrite e p = WriteRaises"
  shows "\<exists>st' w'. detect_step cfg e D d st w = Inl (Cv2Error, st', w') \<and> files w' = files w \<and>
           streak_of st' s = streak_of st s + 1 \<and> s \<notin> current_state st' \<and>
           last_notified st' s = last_notified st s"
  using assms
  by (simp add: step_simps case_prod_beta create_notification_world save_snapshot_raises)

lemma detect_step_error:
  assumes "\<forall>p. imwrite e p = WriteRaises" "detect_step cfg e D d st w = Inl (err, st', w')"
  shows "err = Cv2Error"
  using assms
  by (auto simp: step_simps case_prod_beta create_notification_world save_snapshot_raises
           split: if_splits)

lemma detect_loop_raises:
  assumes "length (bearing s dets) = 1"
      and "persistence_frames cfg \<le> streak_of st s + 1" "s \<notin> current_state st"
      and "\<forall>i. cooldown_over cfg (last_notified st s) (clock e i)"
      and "save_images cfg" "\<forall>p. imwrite e p = WriteRaises"
  shows "\<exists>st' w'. detect_loop cfg e D dets st w S N = Inl (Cv2Error, st', w')"
  using assms(1,2,3,4)
proof (induction dets arbitrary: st w S N)
  case Nil
  then show ?case by (simp add: bearing_def)
next
  case (Cons d dets)
  from bearing_one_Cons [OF Cons.prems(1)] show ?case
  proof
    assume a: "lower (label d) = s \<and> bearing s dets = []"
    from Cons.prems(4) have "cooldown_over cfg (last_notified st s) (clock e (ticks w))" by blast
    from detect_step_raises [OF conjunct1 [OF a] Cons.prems(2,3) this assms(5,6), of D]
    show ?thesis by auto
  next
    assume a: "lower (label d) \<noteq> s \<and> length (bearing s dets) = 1"
    show ?thesis
    proof (cases "detect_step cfg e D d st w")
      case (Inl x)
      obtain err st' w' where x: "x = (err, st', w')" by (cases x)
      with Inl detect_step_error [OF assms(6), of cfg D d st w err st' w'] show ?thesis by simp
    next
      case (Inr y)
      obtain n st1 w1 where y: "y = (n, st1, w1)" by (cases y)
      with Inr have st: "detect_step cfg e D d st w = Inr (n, st1, w1)" by simp
      from detect_step_other [OF conjunct1 [OF a] st] Cons.prems
      have p: "persistence_frames cfg \<le> streak_of st1 s + 1" "s \<notin> current_state st1"
        "\<forall>i. cooldown_over cfg (last_notified st1 s) (clock e i)" by simp_all
      from Cons.IH [OF conjunct2 [OF a] p] st show ?thesis by simp
    qed
  qed
qed

subsection \<open>The streak and the invariant\<close>

lemma streak_of_streaks:
  "detection_streak st' = detection_streak st \<Longrightarrow> streak_of st' x = streak_of st x"
  by (simp add: streak_of_def)

lemma detect_loop_subjects:
  assumes "detect_loop cfg e D dets st w S N = Inr (st', w', S', N')"
  shows "S' = S \<union> (\<lambda>d. lower (label d)) ` set dets"
  using assms
proof (induction dets arbitrary: st w S N)
  case Nil
  then show ?case by simp
next
  case (Cons d dets)
  from Cons.prems obtain n st1 w1 where
    lp: "detect_loop cfg e D dets st1 w1 (insert (lower (label d)) S)
               (N @ (case n of None \<Rightarrow> [] | Some x \<Rightarrow> [x])) = Inr (st', w', S', N')"
    by (rule detect_loop_Cons_Inr)
  from Cons.IH [OF lp] show ?case by auto
qed

lemma detect_loop_streak:
  assumes "detect_loop cfg e D dets st w S N = Inr (st', w', S', N')"
  shows "streak_of st' s = streak_of st s + int (length (bearing s dets))"
  using assms
proof (induction dets arbitrary: st w S N)
  case Nil
  then show ?case by (simp add: bearing_def)
next
  case (Cons d dets)
  from Cons.prems obtain n st1 w1 where st: "detect_step cfg e D d st w = Inr (n, st1, w1)"
    and lp: "detect_loop cfg e D dets st1 w1 (insert (lower (label d)) S)
               (N @ (case n of None \<Rightarrow> [] | Some x \<Rightarrow> [x])) = Inr (st', w', S', N')"
    by (rule detect_loop_Cons_Inr)
  from detect_step_streaks [OF st]
  have "streak_of st1 s = streak_of (streak_incr st (lower (label d))) s"
    by (rule streak_of_streaks)
  with Cons.IH [OF lp] show ?case
    by (simp add: streak_of_incr bearing_def)
qed

text \<open>A call adds to the streak of a subject the number of detections that bear it.\<close>

lemma streak_adds_detections:
  assumes "process_detections cfg e st fs dets = Inr (ns, st', fs')" "bearing s dets \<noteq> []"
  shows "streak_of st' s = streak_of st s + int (length (bearing s dets))"
proof -
  from assms(1) obtain st1 w1 S where
    l: "detect_loop cfg e dets dets st \<lparr>ticks = 0, files = fs\<rparr> {} [] = Inr (st1, w1, S, ns)"
    and r: "st' = reset_loop (map fst (detection_streak st1)) S st1"
    by (auto simp: process_detections_def split: sum.splits)
  from detect_loop_subjects [OF l] bearing_subject [OF assms(2)] have "s \<in> S" by simp
  with r detect_loop_streak [OF l] show ?thesis by (simp add: reset_loop_streak)
qed

text \<open>The invariant holds initially and every call keeps it.\<close>

lemma state_inv_init: "state_inv init_state"
  by (simp add: state_inv_def init_state_def)

lemma streak_nonneg:
  assumes "state_inv st"
  shows "0 \<le> streak_of st s"
proof (cases "map_of (detection_streak st) s")
  case None
  then show ?thesis by (simp add: streak_of_def)
next
  case (Some n)
  then have "(s, n) \<in> set (detection_streak st)" by (rule map_of_SomeD)
  with assms have "0 \<le> n" by (force simp: state_inv_def)
  with Some show ?thesis by (simp add: streak_of_def)
qed

lemma set_update_cases: "p \<in> set (AList.update k v al) \<Longrightarrow> p = (k, v) \<or> p \<in> set al"
  by (induction al) (auto split: if_splits)

lemma state_inv_incr:
  assumes "state_inv st"
  shows "state_inv (streak_incr st s)"
proof -
  have "\<forall>p \<in> set (detection_streak (streak_incr st s)). 0 \<le> snd p"
  proof
    fix p assume "p \<in> set (detection_streak (streak_incr st s))"
    then have "p = (s, streak_of st s + 1) \<or> p \<in> set (detection_streak st)"
      by (auto simp: streak_incr_def dest: set_update_cases)
    with assms streak_nonneg [OF assms, of s] show "0 \<le> snd p"
      by (auto simp: state_inv_def)
  qed
  moreover have "\<forall>x \<in> current_state (streak_incr st s). 0 < streak_of (streak_incr st s) x"
    using assms by (auto simp: state_inv_def streak_of_incr current_state_incr)
  ultimately show ?thesis by (simp add: state_inv_def)
qed

lemma state_inv_getitem: "state_inv (snd (last_notification_getitem st s)) = state_inv st"
  by (simp add: state_inv_def getitem_snd)

lemma state_inv_present:
  assumes "state_inv st" "0 < streak_of st s"
  shows "state_inv (st\<lparr>last_notification := L, current_state := insert s (current_state st)\<rparr>)"
  using assms by (auto simp: state_inv_def streak_of_record)

lemma detect_step_inv:
  assumes "state_inv st"
  shows "case detect_step cfg e D d st w of Inl (err, st', w') \<Rightarrow> state_inv st'
         | Inr (n, st', w') \<Rightarrow> state_inv st'"
proof -
  let ?s = "lower (label d)"
  let ?st2 = "snd (last_notification_getitem (streak_incr st ?s) ?s)"
  have i1: "state_inv (streak_incr st ?s)" by (rule state_inv_incr [OF assms])
  then have i2: "state_inv ?st2" by (simp add: state_inv_getitem)
  have "0 < streak_of ?st2 ?s"
    using streak_nonneg [OF assms, of ?s] by (simp add: getitem_snd streak_of_incr)
  with i2 have i3: "\<And>L. state_inv (?st2\<lparr>last_notification := L,
       current_state := insert ?s (current_state ?st2)\<rparr>)"
    by (rule state_inv_present)
  from i1 i2 i3 show ?thesis
    by (auto simp: detect_step_def is_cooled_down_eq Let_def case_prod_beta getitem_snd current_state_incr
             split: sum.splits if_splits)
qed

lemma detect_loop_inv:
  assumes "state_inv st"
  shows "case detect_loop cfg e D dets st w S N of Inl (err, st', w') \<Rightarrow> state_inv st'
         | Inr (st', w', S', N') \<Rightarrow> state_inv st'"
  using assms
proof (induction dets arbitrary: st w S N)
  case Nil
  then show ?case by simp
next
  case (Cons d dets)
  show ?case
  proof (cases "detect_step cfg e D d st w")
    case (Inl x)
    with detect_step_inv [OF Cons.prems, of cfg e D d w] show ?thesis by simp
  next
    case (Inr y)
    obtain n st1 w1 where y: "y = (n, st1, w1)" by (cases y)
    with Inr detect_step_inv [OF Cons.prems, of cfg e D d w] have "state_inv st1" by simp
    from Cons.IH [OF this] Inr y show ?thesis by simp
  qed
qed

lemma reset_loop_inv: "state_inv st \<Longrightarrow> state_inv (reset_loop keys S st)"
proof (induction keys arbitrary: st)
  case Nil
  then show ?case by simp
next
  case (Cons k keys)
  let ?st1 = "st\<lparr>detection_streak := AList.update k 0 (detection_streak st)\<rparr>"
  have "state_inv (?st1\<lparr>current_state := current_state st - {k}\<rparr>)"
    unfolding state_inv_def
  proof (intro conjI ballI)
    fix p assume "p \<in> set (detection_streak (?st1\<lparr>current_state := current_state st - {k}\<rparr>))"
    then have "p = (k, 0) \<or> p \<in> set (detection_streak st)"
      by (auto dest: set_update_cases)
    with Cons.prems show "0 \<le> snd p" by (auto simp: state_inv_def)
  next
    fix x assume "x \<in> current_state (?st1\<lparr>current_state := current_state st - {k}\<rparr>)"
    with Cons.prems show "0 < streak_of (?st1\<lparr>current_state := current_state st - {k}\<rparr>) x"
      by (auto simp: state_inv_def streak_of_update streak_of_current_update)
  qed
  moreover have "k \<notin> current_state st \<Longrightarrow> ?st1\<lparr>current_state := current_state st - {k}\<rparr> = ?st1"
    by simp
  ultimately have "state_inv (if k \<notin> S then
          (let st1 = ?st1 in if k \<in> current_state st1
              then st1\<lparr>current_state := current_state st1 - {k}\<rparr> else st1)
        else st)"
    using Cons.prems by (auto simp: Let_def)
  from Cons.IH [OF this] show ?case by simp
qed

lemma state_inv_process_detections:
  assumes "state_inv st"
  shows "case process_detections cfg e st fs dets of Inl (err, st', fs') \<Rightarrow> state_inv st'
         | Inr (ns, st', fs') \<Rightarrow> state_inv st'"
  using detect_loop_inv [OF assms, of cfg e dets dets "\<lparr>ticks = 0, files = fs\<rparr>" "{}" "[]"]
  by (auto simp: process_detections_def reset_loop_inv split: sum.splits)

subsection \<open>A session\<close>

lemma run_frames_quiet_fire:
  assumes "\<forall>f \<in> set quiet. writer_ok cfg (fst f) \<and> length (bearing s (snd f)) = 1"
      and "writer_ok cfg (fst g)" "length (bearing s (snd g)) = 1"
      and "store_ok cfg fs" "s \<notin> current_state st"
      and "\<forall>j < length quiet. streak_of st s + int j + 1 < persistence_frames cfg \<or>
             (\<forall>i. \<not> cooldown_over cfg (last_notified st s) (clock (fst (quiet ! j)) i))"
      and "persistence_frames cfg \<le> streak_of st s + int (length quiet) + 1"
      and "\<forall>i. cooldown_over cfg (last_notified st s) (clock (fst g) i)"
  shows "\<exists>nss ns x st' fs'. run_frames cfg st fs (quiet @ [g]) = Inr (nss @ [ns], st', fs') \<and>
           length nss = length quiet \<and> (\<forall>m \<in> set nss. about s m = []) \<and> about s ns = [x] \<and>
           s \<in> current_state st' \<and> streak_of st' s = streak_of st s + int (length quiet) + 1 \<and>
           last_notified st' s \<in> range (clock (fst g)) \<and> store_ok cfg fs'"
  using assms(1,4,5,6,7,8)
proof (induction quiet arbitrary: st fs)
  case Nil
  from Nil(5) have "persistence_frames cfg \<le> streak_of st s + 1" by simp
  from frame_fire [OF assms(2) Nil(2) assms(3) this Nil(3) Nil(6)]
  obtain ns st' fs' x where "process_detections cfg (fst g) st fs (snd g) = Inr (ns, st', fs')"
    "store_ok cfg fs'" "about s ns = [x]"
    "streak_of st' s = streak_of st s + 1"
    "s \<in> current_state st'" "last_notified st' s \<in> range (clock (fst g))"
    by blast
  then have "run_frames cfg st fs ([] @ [g]) = Inr ([] @ [ns], st', fs')"
    "length ([] :: notification list list) = length ([] :: (env \<times> detection list) list)"
    "\<forall>m \<in> set ([] :: notification list list). about s m = []" "about s ns = [x]"
    "s \<in> current_state st'"
    "streak_of st' s = streak_of st s + int (length ([] :: (env \<times> detection list) list)) + 1"
    "last_notified st' s \<in> range (clock (fst g))" "store_ok cfg fs'"
    by simp_all
  then show ?case by blast
next
  case (Cons q quiet)
  from Cons.prems(1) have wq: "writer_ok cfg (fst q)" and bq: "length (bearing s (snd q)) = 1"
    by simp_all
  from Cons.prems(4) have "streak_of st s + 1 < persistence_frames cfg \<or>
      (\<forall>i. \<not> cooldown_over cfg (last_notified st s) (clock (fst q) i))"
    by fastforce
  then have "streak_of st s + 1 < persistence_frames cfg \<or> s \<in> current_state st \<or>
      (\<forall>i. \<not> cooldown_over cfg (last_notified st s) (clock (fst q) i))"
    by blast
  from frame_quiet [OF wq Cons.prems(2) bq this]
  obtain ns1 st1 fs1 where p: "process_detections cfg (fst q) st fs (snd q) = Inr (ns1, st1, fs1)"
    and ok1: "store_ok cfg fs1" and a1: "about s ns1 = []"
    and s1: "streak_of st1 s = streak_of st s + 1"
    and c1: "(s \<in> current_state st1) = (s \<in> current_state st)"
    and l1: "last_notified st1 s = last_notified st s"
    by blast
  from Cons.prems(1) have r1: "\<forall>f \<in> set quiet. writer_ok cfg (fst f) \<and> length (bearing s (snd f)) = 1"
    by simp
  from c1 Cons.prems(3) have r3: "s \<notin> current_state st1" by simp
  have r4: "\<forall>j < length quiet. streak_of st1 s + int j + 1 < persistence_frames cfg \<or>
             (\<forall>i. \<not> cooldown_over cfg (last_notified st1 s) (clock (fst (quiet ! j)) i))"
  proof (intro allI impI)
    fix j assume "j < length quiet"
    then have "Suc j < length (q # quiet)" by simp
    with Cons.prems(4) have "streak_of st s + int (Suc j) + 1 < persistence_frames cfg \<or>
             (\<forall>i. \<not> cooldown_over cfg (last_notified st s) (clock (fst ((q # quiet) ! Suc j)) i))"
      by blast
    with s1 l1 show "streak_of st1 s + int j + 1 < persistence_frames cfg \<or>
             (\<forall>i. \<not> cooldown_over cfg (last_notified st1 s) (clock (fst (quiet ! j)) i))"
      by (simp add: algebra_simps)
  qed
  from Cons.prems(5) s1 have r5: "persistence_frames cfg \<le> streak_of st1 s + int (length quiet) + 1"
    by simp
  from Cons.prems(6) l1 have r6: "\<forall>i. cooldown_over cfg (last_notified st1 s) (clock (fst g) i)"
    by simp
  from Cons.IH [OF r1 ok1 r3 r4 r5 r6]
  obtain nss ns x st' fs' where run: "run_frames cfg st1 fs1 (quiet @ [g]) = Inr (nss @ [ns], st', fs')"
    and rest: "length nss = length quiet" "\<forall>m \<in> set nss. about s m = []" "about s ns = [x]"
      "s \<in> current_state st'" "streak_of st' s = streak_of st1 s + int (length quiet) + 1"
      "last_notified st' s \<in> range (clock (fst g))" "store_ok cfg fs'"
    by blast
  from p run have "run_frames cfg st fs ((q # quiet) @ [g]) = Inr ((ns1 # nss) @ [ns], st', fs')"
    by simp
  moreover from rest a1 have "length (ns1 # nss) = length (q # quiet)" "\<forall>m \<in> set (ns1 # nss). about s m = []"
    by simp_all
  moreover from rest(5) s1 have "streak_of st' s = streak_of st s + int (length (q # quiet)) + 1"
    by simp
  ultimately show ?case using rest(3,4,6,7) by blast
qed

lemma run_frames_quiet:
  assumes "\<forall>f \<in> set quiet. writer_ok cfg (fst f) \<and> length (bearing s (snd f)) = 1"
      and "store_ok cfg fs" "s \<notin> current_state st"
      and "\<forall>j < length quiet. streak_of st s + int j + 1 < persistence_frames cfg \<or>
             (\<forall>i. \<not> cooldown_over cfg (last_notified st s) (clock (fst (quiet ! j)) i))"
  shows "\<exists>nss st' fs'. run_frames cfg st fs quiet = Inr (nss, st', fs') \<and>
           length nss = length quiet \<and> (\<forall>m \<in> set nss. about s m = []) \<and>
           s \<notin> current_state st' \<and> streak_of st' s = streak_of st s + int (length quiet) \<and>
           last_notified st' s = last_notified st s \<and> store_ok cfg fs'"
  using assms
proof (induction quiet arbitrary: st fs)
  case Nil
  then show ?case by simp
next
  case (Cons q quiet)
  from Cons.prems(1) have wq: "writer_ok cfg (fst q)" and bq: "length (bearing s (snd q)) = 1"
    by simp_all
  from Cons.prems(4) have "streak_of st s + 1 < persistence_frames cfg \<or>
      (\<forall>i. \<not> cooldown_over cfg (last_notified st s) (clock (fst q) i))"
    by fastforce
  then have "streak_of st s + 1 < persistence_frames cfg \<or> s \<in> current_state st \<or>
      (\<forall>i. \<not> cooldown_over cfg (last_notified st s) (clock (fst q) i))"
    by blast
  from frame_quiet [OF wq Cons.prems(2) bq this]
  obtain ns1 st1 fs1 where p: "process_detections cfg (fst q) st fs (snd q) = Inr (ns1, st1, fs1)"
    and ok1: "store_ok cfg fs1" and a1: "about s ns1 = []"
    and s1: "streak_of st1 s = streak_of st s + 1"
    and c1: "(s \<in> current_state st1) = (s \<in> current_state st)"
    and l1: "last_notified st1 s = last_notified st s"
    by blast
  from Cons.prems(1) have r1: "\<forall>f \<in> set quiet. writer_ok cfg (fst f) \<and> length (bearing s (snd f)) = 1"
    by simp
  from c1 Cons.prems(3) have r3: "s \<notin> current_state st1" by simp
  have r4: "\<forall>j < length quiet. streak_of st1 s + int j + 1 < persistence_frames cfg \<or>
             (\<forall>i. \<not> cooldown_over cfg (last_notified st1 s) (clock (fst (quiet ! j)) i))"
  proof (intro allI impI)
    fix j assume "j < length quiet"
    then have "Suc j < length (q # quiet)" by simp
    with Cons.prems(4) have "streak_of st s + int (Suc j) + 1 < persistence_frames cfg \<or>
             (\<forall>i. \<not> cooldown_over cfg (last_notified st s) (clock (fst ((q # quiet) ! Suc j)) i))"
      by blast
    with s1 l1 show "streak_of st1 s + int j + 1 < persistence_frames cfg \<or>
             (\<forall>i. \<not> cooldown_over cfg (last_notified st1 s) (clock (fst (quiet ! j)) i))"
      by (simp add: algebra_simps)
  qed
  from Cons.IH [OF r1 ok1 r3 r4]
  obtain nss st' fs' where run: "run_frames cfg st1 fs1 quiet = Inr (nss, st', fs')"
    and rest: "length nss = length quiet" "\<forall>m \<in> set nss. about s m = []"
      "s \<notin> current_state st'" "streak_of st' s = streak_of st1 s + int (length quiet)"
      "last_notified st' s = last_notified st1 s" "store_ok cfg fs'"
    by blast
  from p run have "run_frames cfg st fs (q # quiet) = Inr (ns1 # nss, st', fs')"
    by simp
  moreover from rest a1 have "length (ns1 # nss) = length (q # quiet)" "\<forall>m \<in> set (ns1 # nss). about s m = []"
    by simp_all
  moreover from rest(4) s1 have "streak_of st' s = streak_of st s + int (length (q # quiet))"
    by simp
  moreover from rest(5) l1 have "last_notified st' s = last_notified st s" by simp
  ultimately show ?case using rest(3,6) by blast
qed





subsection \<open>The send loop\<close>



lemma send_loop_elapsed:
  "elapsed (send_loop ps n d) =
     elapsed d + sum_list (map (\<lambda>p. snd (send p (message n) (image_path n))) ps)"
  by (induction ps arbitrary: d) (auto split: prod.splits)

lemma send_loop_started:
  "map started (attempts (send_loop ps n d)) =
     map started (attempts d) @
     map (\<lambda>i. elapsed d + sum_list (map (\<lambda>p. snd (send p (message n) (image_path n))) (take i ps)))
       [0..<length ps]"
proof (induction ps arbitrary: d)
  case Nil
  then show ?case by simp
next
  case (Cons p ps)
  obtain r t where s: "send p (message n) (image_path n) = (r, t)" by (cases "send p (message n) (image_path n)")
  have "[0..<length (p # ps)] = 0 # map Suc [0..<length ps]"
    by (simp add: upt_conv_Cons map_Suc_upt del: upt_Suc)
  then show ?case using s
    by (simp add: Cons.IH comp_def add.assoc del: upt_Suc)
qed

subsection \<open>Evaluating the sample inputs\<close>

lemma lower_Person: "lower ''Person'' = ''person''"
  by (simp add: lower_def lower_char_def ascii_uppercase_def ascii_lowercase_def)

lemma lower_Miso: "lower ''Miso'' = ''miso''"
  by (simp add: lower_def lower_char_def ascii_uppercase_def ascii_lowercase_def)

lemmas sample_defs = sample_cfg_def sample_person_def sample_miso_def env_at_def sample_time_def
  init_state_def cooling_state_def sample_world_def

lemma sample_save:
  "save_snapshot sample_cfg (env_at sample_time) ''person'' [sample_person] sample_world =
     Inr (''snapshots/person_20261104_151500.jpg'',
          \<lparr>ticks = 1, files = [(''notes.txt'', 63929200000000000),
                               (''person_20261104_151500.jpg'', 63929390400000000)]\<rparr>)"
  by (simp add: sample_defs save_snapshot_def datetime_now_def store_image_def cleanup_old_images_def
        glob_jpg_def is_jpg_def endswith_def unlink_def Let_def)

lemma sample_dispatch:
  "printed (send_notification [failing_platform, working_platform] sample_notification) =
     [warn_icon @ ''  Failed to send notification via Telegram: Telegram API error: Unauthorized''] \<and>
   map via (attempts (send_notification [failing_platform, working_platform] sample_notification)) =
     [''Telegram'', ''Console'']"
  by (simp add: send_notification_def sample_defs failing_platform_def working_platform_def sample_notification_def failure_line_def)

section \<open>The claims\<close>

subsection \<open>Persistence\<close>

text \<open>
  Claim C1. In a state of the manager, a subject whose streak is \<open>0\<close> is detected in \<open>k\<close>
  consecutive frames, once per frame, where \<open>k\<close> is the persistence threshold (one frame when the threshold is at most
  \<open>1\<close>), and the cooldown check passes at the clock of the last frame. Then the session
  returns, the first \<open>k - 1\<close> calls return no notification about the subject, and the
  \<open>k\<close>-th call returns exactly one. The snapshot store is taken not to raise.
\<close>

theorem persistence_confirms_on_kth_frame:
  assumes "state_inv st" "streak_of st s = 0"
      and "int (length frames) = max 1 (persistence_frames cfg)"
      and "\<forall>f \<in> set frames. length (bearing s (snd f)) = 1"
      and "\<forall>i. cooldown_over cfg (last_notified st s) (clock (fst (last frames)) i)"
      and "\<forall>f \<in> set frames. writer_ok cfg (fst f)" and "store_ok cfg fs"
  shows "\<exists>nss st' fs'. run_frames cfg st fs frames = Inr (nss, st', fs') \<and>
           length nss = length frames \<and> (\<forall>m \<in> set (butlast nss). about s m = []) \<and>
           length (about s (last nss)) = 1"
proof -
  from assms(3) have ne: "frames \<noteq> []" by auto
  then have fr: "frames = butlast frames @ [last frames]" by simp
  from assms(1,2) have absent: "s \<notin> current_state st"
    by (auto simp: state_inv_def)
  from ne assms(4,6) have q: "\<forall>f \<in> set (butlast frames). writer_ok cfg (fst f) \<and> length (bearing s (snd f)) = 1"
    and g: "writer_ok cfg (fst (last frames))" "length (bearing s (snd (last frames))) = 1"
    by (auto dest: in_set_butlastD)
  from assms(2,3) have early: "\<forall>j < length (butlast frames).
      streak_of st s + int j + 1 < persistence_frames cfg \<or>
      (\<forall>i. \<not> cooldown_over cfg (last_notified st s) (clock (fst (butlast frames ! j)) i))"
    by auto
  from assms(2,3) ne have late: "persistence_frames cfg \<le> streak_of st s + int (length (butlast frames)) + 1"
    by (cases frames) auto
  from run_frames_quiet_fire [OF q g assms(7) absent early late assms(5)] fr
  obtain nss ns x st' fs' where "run_frames cfg st fs frames = Inr (nss @ [ns], st', fs')"
    "length nss = length (butlast frames)" "\<forall>m \<in> set nss. about s m = []" "about s ns = [x]"
    by metis
  with ne show ?thesis by auto
qed

theorem persistence_confirms_on_kth_frame_witness:
  "\<exists>nss st' fs'. run_frames sample_cfg init_state [] sample_session = Inr (nss, st', fs') \<and>
     length nss = length sample_session \<and> (\<forall>m \<in> set (butlast nss). about ''person'' m = []) \<and>
     length (about ''person'' (last nss)) = 1"
  by (rule persistence_confirms_on_kth_frame)
     (simp_all add: sample_defs sample_session_def state_inv_def streak_of_def bearing_def lower_Person lower_Miso
        cooldown_over_def total_seconds_ge_iff last_notified_def datetime_min_def writer_ok_def
        store_ok_def)

subsection \<open>Absence\<close>

text \<open>
  Claim C8. A subject that no detection of the frame bears, and that has a nonzero streak
  or is marked present, has streak \<open>0\<close> and is not marked present after the call, and the
  call returns no notification about it. One absent frame is enough. The snapshot store
  is taken not to raise, so that the call reaches its second loop.
\<close>

theorem absent_subject_is_reset:
  assumes "state_inv st" "writer_ok cfg e" "store_ok cfg fs"
      and "bearing s dets = []"
      and "streak_of st s \<noteq> 0 \<or> s \<in> current_state st"
  shows "\<exists>ns st' fs'. process_detections cfg e st fs dets = Inr (ns, st', fs') \<and>
           streak_of st' s = 0 \<and> s \<notin> current_state st' \<and> about s ns = []"
proof -
  from assms(1,5) have "streak_of st s \<noteq> 0" by (auto simp: state_inv_def)
  then have "s \<in> fst ` set (detection_streak st)" using streak_of_key by fastforce
  with frame_absent [OF assms(2,3,4), of st] show ?thesis by auto
qed

theorem absent_subject_is_reset_witness:
  "\<exists>ns st' fs'. process_detections sample_cfg (env_at sample_time) present_state [] [sample_miso] =
       Inr (ns, st', fs') \<and>
     streak_of st' ''person'' = 0 \<and> ''person'' \<notin> current_state st' \<and> about ''person'' ns = []"
  by (rule absent_subject_is_reset)
     (simp_all add: sample_defs present_state_def state_inv_def streak_of_def bearing_def lower_Miso
        writer_ok_def store_ok_def)

subsection \<open>A rejected confirmation is tried again\<close>

text \<open>
  Claim C10. The subject is not marked present and its streak reaches the threshold with
  the next detection. In the frames \<open>rejected\<close> it is detected once per frame while the
  cooldown check fails: no call returns a notification about it, it is not marked
  present, its last notification time is as before and its streak has grown by one per
  frame. In the next frame \<open>g\<close> the cooldown check passes: the call returns exactly one
  notification about the subject and marks it present.
\<close>

theorem cooldown_rechecked_while_detected:
  assumes "\<forall>f \<in> set (rejected @ [g]). writer_ok cfg (fst f) \<and> length (bearing s (snd f)) = 1"
      and "store_ok cfg fs"
      and "s \<notin> current_state st" "persistence_frames cfg \<le> streak_of st s + 1"
      and "\<forall>f \<in> set rejected. \<forall>i. \<not> cooldown_over cfg (last_notified st s) (clock (fst f) i)"
      and "\<forall>i. cooldown_over cfg (last_notified st s) (clock (fst g) i)"
  shows "\<exists>nss st1 fs1 ns st' fs'.
           run_frames cfg st fs rejected = Inr (nss, st1, fs1) \<and> length nss = length rejected \<and>
           (\<forall>m \<in> set nss. about s m = []) \<and> s \<notin> current_state st1 \<and>
           last_notified st1 s = last_notified st s \<and>
           streak_of st1 s = streak_of st s + int (length rejected) \<and>
           process_detections cfg (fst g) st1 fs1 (snd g) = Inr (ns, st', fs') \<and>
           length (about s ns) = 1 \<and> s \<in> current_state st' \<and>
           last_notified st' s \<in> range (clock (fst g))"
proof -
  from assms(1) have q: "\<forall>f \<in> set rejected. writer_ok cfg (fst f) \<and> length (bearing s (snd f)) = 1"
    and g: "writer_ok cfg (fst g)" "length (bearing s (snd g)) = 1"
    by simp_all
  from assms(5) have rej: "\<forall>j < length rejected. streak_of st s + int j + 1 < persistence_frames cfg \<or>
             (\<forall>i. \<not> cooldown_over cfg (last_notified st s) (clock (fst (rejected ! j)) i))"
    by simp
  from run_frames_quiet [OF q assms(2,3) rej]
  obtain nss st1 fs1 where run: "run_frames cfg st fs rejected = Inr (nss, st1, fs1)"
    and r: "length nss = length rejected" "\<forall>m \<in> set nss. about s m = []"
      "s \<notin> current_state st1" "streak_of st1 s = streak_of st s + int (length rejected)"
      "last_notified st1 s = last_notified st s" "store_ok cfg fs1"
    by blast
  from r(4) assms(4) have thr: "persistence_frames cfg \<le> streak_of st1 s + 1" by simp
  from r(5) assms(6) have cool: "\<forall>i. cooldown_over cfg (last_notified st1 s) (clock (fst g) i)" by simp
  from frame_fire [OF g(1) r(6) g(2) thr r(3) cool]
  obtain ns st' fs' x where "process_detections cfg (fst g) st1 fs1 (snd g) = Inr (ns, st', fs')"
    "about s ns = [x]" "s \<in> current_state st'" "last_notified st' s \<in> range (clock (fst g))"
    by blast
  with run r show ?thesis by auto
qed

theorem cooldown_rechecked_while_detected_witness:
  "\<exists>nss st1 fs1 ns st' fs'.
     run_frames sample_cfg cooling_state []
       [(env_at (sample_time + 1000000), [sample_person]),
        (env_at (sample_time + 2000000), [sample_person])] = Inr (nss, st1, fs1) \<and>
     length nss = length [(env_at (sample_time + 1000000), [sample_person]),
        (env_at (sample_time + 2000000), [sample_person])] \<and>
     (\<forall>m \<in> set nss. about ''person'' m = []) \<and> ''person'' \<notin> current_state st1 \<and>
     last_notified st1 ''person'' = last_notified cooling_state ''person'' \<and>
     streak_of st1 ''person'' = streak_of cooling_state ''person'' +
       int (length [(env_at (sample_time + 1000000), [sample_person]),
        (env_at (sample_time + 2000000), [sample_person])]) \<and>
     process_detections sample_cfg (fst (env_at (sample_time + 300000000), [sample_person])) st1 fs1
       (snd (env_at (sample_time + 300000000), [sample_person])) = Inr (ns, st', fs') \<and>
     length (about ''person'' ns) = 1 \<and> ''person'' \<in> current_state st' \<and>
     last_notified st' ''person'' \<in> range (clock (fst (env_at (sample_time + 300000000), [sample_person])))"
  by (rule cooldown_rechecked_while_detected)
     (simp_all add: sample_defs state_inv_def streak_of_def bearing_def lower_Person
        cooldown_over_def total_seconds_ge_iff last_notified_def writer_ok_def store_ok_def)

subsection \<open>The cooldown check\<close>




subsection \<open>Retention of snapshots\<close>



subsection \<open>Storage errors\<close>

text \<open>
  Claim C5, as the code has it. Neither \<^verbatim>\<open>process_detections\<close> nor the snapshot store
  handles an exception. For a subject that a frame confirms while images are saved: when
  the image writer raises, the call raises and returns no notification; when the image
  writer fails by returning \<^verbatim>\<open>False\<close>, the call returns the notification, which carries
  the path of the image that was not written. Unlinking a file that is not in the
  directory raises \<^verbatim>\<open>FileNotFoundError\<close>, and the cleanup loop ends with that exception.
\<close>

theorem storage_errors_propagate:
  assumes "save_images cfg" "length (bearing s dets) = 1"
      and "persistence_frames cfg \<le> streak_of st s + 1" "s \<notin> current_state st"
      and "\<forall>i. cooldown_over cfg (last_notified st s) (clock e i)"
  shows "((\<forall>p. imwrite e p = WriteRaises) \<longrightarrow>
            (\<exists>st' fs'. process_detections cfg e st fs dets = Inl (Cv2Error, st', fs'))) \<and>
         ((\<forall>p. imwrite e p = NotWritten) \<and> store_ok cfg fs \<longrightarrow>
            (\<exists>ns st' fs' x p. process_detections cfg e st fs dets = Inr (ns, st', fs') \<and>
               about s ns = [x] \<and> image_path x = Some p)) \<and>
         (f \<notin> fst ` set fs \<longrightarrow> unlink f fs = Inl (FileNotFoundError f)) \<and>
         (f \<notin> fst ` set fs \<and> m < int (length (f # images)) \<longrightarrow>
            cleanup_loop m (f # images) fs = Inl (FileNotFoundError f, fs))"
proof (intro conjI impI)
  assume "\<forall>p. imwrite e p = WriteRaises"
  from detect_loop_raises [OF assms(2,3,4,5,1) this, of dets "\<lparr>ticks = 0, files = fs\<rparr>" "{}" "[]"]
  show "\<exists>st' fs'. process_detections cfg e st fs dets = Inl (Cv2Error, st', fs')"
    by (auto simp: process_detections_def)
next
  assume a: "(\<forall>p. imwrite e p = NotWritten) \<and> store_ok cfg fs"
  then have w: "writer_ok cfg e" by (simp add: writer_ok_def)
  from frame_fire [OF w conjunct2 [OF a] assms(2,3,4,5)] assms(1)
  show "\<exists>ns st' fs' x p. process_detections cfg e st fs dets = Inr (ns, st', fs') \<and>
               about s ns = [x] \<and> image_path x = Some p"
    by fastforce
next
  assume "f \<notin> fst ` set fs"
  then show "unlink f fs = Inl (FileNotFoundError f)" by (simp add: unlink_def)
next
  assume "f \<notin> fst ` set fs \<and> m < int (length (f # images))"
  then show "cleanup_loop m (f # images) fs = Inl (FileNotFoundError f, fs)"
    by (simp add: unlink_def)
qed

theorem storage_errors_propagate_witness:
  "(\<exists>st' fs'. process_detections sample_cfg (raising_writer (sample_time + 300000000)) cooling_state
        (files sample_world) [sample_person] = Inl (Cv2Error, st', fs')) \<and>
   (\<exists>ns st' fs' x p. process_detections sample_cfg (silent_writer (sample_time + 300000000)) cooling_state
        (files sample_world) [sample_person] = Inr (ns, st', fs') \<and>
      about ''person'' ns = [x] \<and> image_path x = Some p) \<and>
   unlink ''gone.jpg'' (files sample_world) = Inl (FileNotFoundError ''gone.jpg'') \<and>
   cleanup_loop 1 [''gone.jpg'', ''notes.txt''] (files sample_world) =
     Inl (FileNotFoundError ''gone.jpg'', files sample_world)"
proof -
  have h: "save_images sample_cfg" "length (bearing ''person'' [sample_person]) = 1"
    "persistence_frames sample_cfg \<le> streak_of cooling_state ''person'' + 1"
    "''person'' \<notin> current_state cooling_state"
    by (simp_all add: sample_defs bearing_def lower_Person streak_of_def)
  have c1: "\<forall>i. cooldown_over sample_cfg (last_notified cooling_state ''person'')
               (clock (raising_writer (sample_time + 300000000)) i)"
    and c2: "\<forall>i. cooldown_over sample_cfg (last_notified cooling_state ''person'')
               (clock (silent_writer (sample_time + 300000000)) i)"
    by (simp_all add: sample_defs raising_writer_def silent_writer_def cooldown_over_def total_seconds_ge_iff last_notified_def)
  have r: "\<forall>p. imwrite (raising_writer (sample_time + 300000000)) p = WriteRaises"
    and n: "(\<forall>p. imwrite (silent_writer (sample_time + 300000000)) p = NotWritten) \<and>
            store_ok sample_cfg (files sample_world)"
    and g: "''gone.jpg'' \<notin> fst ` set (files sample_world)"
      "''gone.jpg'' \<notin> fst ` set (files sample_world) \<and> 1 < int (length [''gone.jpg'', ''notes.txt''])"
    by (simp_all add: sample_defs raising_writer_def silent_writer_def store_ok_def)
  from storage_errors_propagate [OF h c1, of "files sample_world" "''gone.jpg''" 1 "[''notes.txt'']"]
       storage_errors_propagate [OF h c2, of "files sample_world" "''gone.jpg''" 1 "[''notes.txt'']"]
       r n g
  show ?thesis by blast
qed

text \<open>
  The claim as stated has the notification emitted without an image when the write
  fails, and a missing file skipped by the cleanup. With a writer that raises, the call
  for a confirmed person ends with the exception, the streak counted and the person not
  marked present; a cleanup loop that meets a file already removed ends with
  \<^verbatim>\<open>FileNotFoundError\<close>.
\<close>

theorem snapshot_failure_raises:
  "process_detections sample_cfg (raising_writer (sample_time + 300000000)) cooling_state
     (files sample_world) [sample_person] =
     Inl (Cv2Error, cooling_state\<lparr>detection_streak := [(''person'', 2)]\<rparr>, files sample_world) \<and>
   cleanup_loop 1 [''gone.jpg'', ''notes.txt''] (files sample_world) =
     Inl (FileNotFoundError ''gone.jpg'', files sample_world)"
  by (simp add: sample_defs raising_writer_def process_detections_def detect_step_def streak_incr_def streak_of_def
        lower_Person is_cooled_down_eq cooldown_over_def total_seconds_ge_iff last_notified_def
        last_notification_getitem_def create_notification_def datetime_now_def save_snapshot_def
        unlink_def Let_def)

subsection \<open>Sending to the platforms\<close>


text \<open>
  Claim C7, as the code has it. The sends are awaited one after another in the order of
  the list: the send of a platform starts when the sends of the platforms before it are
  over, and the call lasts as long as all the sends together. \<^verbatim>\<open>send_notification\<close> sets
  no timeout on a send.
\<close>

theorem sends_are_awaited_in_turn:
  "map started (attempts (send_notification platforms n)) =
     map (\<lambda>i. sum_list (map (\<lambda>p. snd (send p (message n) (image_path n))) (take i platforms)))
       [0..<length platforms] \<and>
   elapsed (send_notification platforms n) =
     sum_list (map (\<lambda>p. snd (send p (message n) (image_path n))) platforms)"
  by (simp add: send_notification_def send_loop_started send_loop_elapsed)

text \<open>
  The claim as stated has the sends run concurrently and the call wait no longer than
  its slowest send. With a platform that takes five units of time and one that takes
  seven, the second send starts at time five, and the call lasts twelve units, longer
  than either send.
\<close>

theorem second_send_waits_for_first:
  "map started (attempts (send_notification [failing_platform, working_platform] sample_notification)) = [0, 5] \<and>
   elapsed (send_notification [failing_platform, working_platform] sample_notification) = 12 \<and>
   max (snd (send failing_platform (message sample_notification) (image_path sample_notification)))
       (snd (send working_platform (message sample_notification) (image_path sample_notification)))
     < elapsed (send_notification [failing_platform, working_platform] sample_notification)"
  by (simp add: send_notification_def sample_defs failing_platform_def working_platform_def sample_notification_def)

subsection \<open>The message\<close>

text \<open>
  Claim C9, as the code has it. \<^verbatim>\<open>_create_notification\<close> has no exceptional result. The
  subjects \<^verbatim>\<open>miso\<close>, \<^verbatim>\<open>ozzy\<close> and \<^verbatim>\<open>person\<close> have a message of their own; every other
  subject has the message made of the search symbol, a space, the capitalized subject,
  \<^verbatim>\<open>detected!\<close>, the confidence formatted as a percentage and the time of day. Each of
  the four messages starts with a symbol.
\<close>

theorem message_composition:
  "fst (create_notification e subj det w) =
     (if subj = ''miso'' then icon_cat @ '' Miso''
      else if subj = ''ozzy'' then icon_cat @ '' Ozzy''
      else if subj = ''person'' then icon_person @ '' Person''
      else icon_search @ '' '' @ capitalize subj) @
     '' detected! ('' @ format_percent e (confidence det) @ '' confident) at '' @
     strftime_clock e (clock e (ticks w))"
  by (simp add: create_notification_def datetime_now_def detected_text_def)

text \<open>
  The claim as stated gives the message of an unrecognized subject as the subject
  followed by the text. For the subject \<^verbatim>\<open>dog\<close> the message is not that string: it is the
  search symbol and a space, followed by that string.
\<close>

theorem generic_message_has_icon:
  "fst (create_notification (env_at sample_time) ''dog'' sample_dog sample_world) \<noteq>
     ''Dog detected! (90% confident) at 03:15 PM'' \<and>
   fst (create_notification (env_at sample_time) ''dog'' sample_dog sample_world) =
     icon_search @ '' Dog detected! (90% confident) at 03:15 PM''"
  by (simp add: create_notification_def datetime_now_def detected_text_def sample_defs sample_dog_def icon_search_def
        upper_char_def lower_char_def ascii_uppercase_def ascii_lowercase_def)

subsection \<open>The streak counts detections\<close>

text \<open>
  Claim C2 bounds the streak of a subject by the number of frames processed since its last
  absence. The first loop of \<^verbatim>\<open>process_detections\<close> adds one to the streak for every
  detection: after one frame with two detections labelled \<^verbatim>\<open>Person\<close>, processed from the
  initial state, the streak of \<^verbatim>\<open>person\<close> is two, and with a threshold of two frames the
  person is confirmed and notified in that first frame.
\<close>

theorem streak_counts_detections:
  "(case process_detections sample_cfg (env_at sample_time) init_state []
           [sample_person, sample_person] of
      Inl err \<Rightarrow> False
    | Inr (ns, st', fs') \<Rightarrow> streak_of st' ''person'' = 2 \<and> length (about ''person'' ns) = 1)"
  by (simp add: sample_defs process_detections_def detect_step_def streak_incr_def streak_of_def
        lower_Person is_cooled_down_eq cooldown_over_def total_seconds_ge_iff last_notified_def
        last_notification_getitem_def create_notification_def datetime_now_def save_snapshot_def
        store_image_def cleanup_old_images_def glob_jpg_def is_jpg_def endswith_def
        unlink_def about_def datetime_min_def Let_def)

end
